theory Spec2Isabelle
  imports Complex_Main "HOL-Library.Word" "HOL-Library.Multiset"
begin

unbundle bit_operations_syntax

section \<open>Identifiers and statuses\<close>

text \<open>
  An \<open>ids.ID\<close> is an opaque 32-byte value that is compared bytewise. It is modelled by
  the natural number its bytes spell in big-endian order, so that the bytewise order is
  the order of the numbers; \<open>Key()\<close> is the identity and \<open>ids.Empty\<close> is 0.
\<close>

type_synonym id = nat

datatype status = Unknown | Processing | Accepted | Rejected

section \<open>The conflict manager: snow/consensus/snowstorm/conflicts/conflicts.go\<close>

text \<open>
  A \<open>Tx\<close> as the conflict manager reads it: \<open>ID()\<close>, \<open>InputIDs()\<close> and the ids of
  \<open>Dependencies()\<close>. The status a dependency reports changes over time, so it is not a
  field: \<open>Add\<close> and \<open>Accept\<close> take the status every decidable reports at the time of
  the call as an argument.
\<close>

record tx =
  ID :: id
  InputIDs :: "id list"
  Dependencies :: "id list"

text \<open>The dynamic type test \<open>txIntf.(Tx)\<close>: a decidable is a tx or it is not.\<close>

datatype decidable = IsTx tx | NotTx id

datatype cm_error = errInvalidTxType | nilDereference

text \<open>
  Modelled from the spec: the event blocker (\<open>events.Blocker\<close>) and the acceptor and
  rejector entries, which are not among the source files. A blocker holds entries, each
  with a dependency set and a callback; an entry whose dependency set is empty at
  registration fires at once; \<open>fulfill\<close> removes the id from every entry and fires the
  entries whose set becomes empty; \<open>abandon\<close> drops every entry that waits for the id,
  without running its callback. The callback of an acceptor appends its tx to
  \<open>acceptable\<close>, that of a rejector appends it to \<open>rejectable\<close>: the three operations
  return the fired txs, and the caller appends them to its queue. The properties below
  use one fact about the blockers only: a tx that fires was registered.
\<close>

record blockable =
  deps :: "id set"
  btx :: tx

type_synonym blocker = "blockable list"

definition Register :: "blocker \<Rightarrow> blockable \<Rightarrow> blocker \<times> tx list" where
  "Register b e = (if deps e = {} then (b, [btx e]) else (b @ [e], []))"

definition Fulfill :: "blocker \<Rightarrow> id \<Rightarrow> blocker \<times> tx list" where
  "Fulfill b i =
     (let b' = map (\<lambda>e. e\<lparr>deps := deps e - {i}\<rparr>) b
      in (filter (\<lambda>e. deps e \<noteq> {}) b', map btx (filter (\<lambda>e. deps e = {}) b')))"

definition Abandon :: "blocker \<Rightarrow> id \<Rightarrow> blocker" where
  "Abandon b i = filter (\<lambda>e. i \<notin> deps e) b"

record Conflicts =
  txs :: "id \<rightharpoonup> tx"
  utxos :: "id \<rightharpoonup> id set"
  pendingAccept :: blocker
  pendingReject :: blocker
  acceptable :: "tx list"
  rejectable :: "tx list"

definition New :: Conflicts where
  "New = \<lparr>txs = Map.empty, utxos = Map.empty, pendingAccept = [], pendingReject = [],
          acceptable = [], rejectable = []\<rparr>"

text \<open>Reading a key that a Go map does not hold yields the nil set.\<close>

definition spenders_of :: "(id \<rightharpoonup> id set) \<Rightarrow> id \<Rightarrow> id set" where
  "spenders_of u k = (case u k of None \<Rightarrow> {} | Some s \<Rightarrow> s)"

text \<open>One round of the loop of \<open>Add\<close> over the input ids.\<close>

definition addSpender :: "id \<Rightarrow> id \<Rightarrow> (id \<rightharpoonup> id set) \<Rightarrow> (id \<rightharpoonup> id set)" where
  "addSpender txID inputKey u = u(inputKey \<mapsto> insert txID (spenders_of u inputKey))"

definition unacceptedDeps :: "(id \<Rightarrow> status) \<Rightarrow> tx \<Rightarrow> id set" where
  "unacceptedDeps st t = set (filter (\<lambda>d. st d \<noteq> Accepted) (Dependencies t))"

definition Add :: "(id \<Rightarrow> status) \<Rightarrow> Conflicts \<Rightarrow> decidable \<Rightarrow> cm_error + Conflicts" where
  "Add st c d =
     (case d of
        NotTx _ \<Rightarrow> Inl errInvalidTxType
      | IsTx t \<Rightarrow>
          (let c1 = c\<lparr>txs := (txs c)(ID t \<mapsto> t)\<rparr>;
               c2 = c1\<lparr>utxos := fold (addSpender (ID t)) (InputIDs t) (utxos c1)\<rparr>;
               toReject = \<lparr>deps = insert (ID t) (unacceptedDeps st t), btx = t\<rparr>;
               r = Register (pendingReject c2) toReject
           in Inr (c2\<lparr>pendingReject := fst r, rejectable := rejectable c2 @ snd r\<rparr>)))"

fun isVirtuousLoop :: "(id \<rightharpoonup> id set) \<Rightarrow> id list \<Rightarrow> bool" where
  "isVirtuousLoop u [] = True"
| "isVirtuousLoop u (k # ks) = (if u k \<noteq> None then False else isVirtuousLoop u ks)"

definition IsVirtuous :: "Conflicts \<Rightarrow> decidable \<Rightarrow> cm_error + bool" where
  "IsVirtuous c d =
     (case d of
        NotTx _ \<Rightarrow> Inl errInvalidTxType
      | IsTx t \<Rightarrow> Inr (isVirtuousLoop (utxos c) (InputIDs t)))"

text \<open>The private \<open>conflicts\<close>: the union of the spender sets of the inputs.\<close>

definition conflicts :: "Conflicts \<Rightarrow> tx \<Rightarrow> id set" where
  "conflicts c t = fold (\<lambda>k acc. acc \<union> spenders_of (utxos c) k) (InputIDs t) {}"

definition ConflictsOf :: "Conflicts \<Rightarrow> decidable \<Rightarrow> cm_error + id set" where
  "ConflictsOf c d =
     (case d of NotTx _ \<Rightarrow> Inl errInvalidTxType | IsTx t \<Rightarrow> Inr (conflicts c t))"

text \<open>
  \<open>Accept\<close> reads \<open>c.txs[txID]\<close> and calls \<open>Dependencies()\<close> on the result. For an id
  that is not in the map the result is the nil interface, and the call panics.
\<close>

definition toAccept :: "(id \<Rightarrow> status) \<Rightarrow> tx \<Rightarrow> blockable" where
  "toAccept st t = \<lparr>deps = unacceptedDeps st t, btx = t\<rparr>"

definition Accept :: "(id \<Rightarrow> status) \<Rightarrow> Conflicts \<Rightarrow> id \<Rightarrow> cm_error + Conflicts" where
  "Accept st c txID =
     (case txs c txID of
        None \<Rightarrow> Inl nilDereference
      | Some t \<Rightarrow>
          (let r = Register (pendingAccept c) (toAccept st t)
           in Inr (c\<lparr>pendingAccept := fst r, acceptable := acceptable c @ snd r\<rparr>)))"

text \<open>One round of the inner loop of \<open>Updateable\<close>, for one input id of a drained tx.\<close>

definition removeSpender :: "id \<Rightarrow> id \<Rightarrow> (id \<rightharpoonup> id set) \<Rightarrow> (id \<rightharpoonup> id set)" where
  "removeSpender txKey inputKey u =
     (let spenders = spenders_of u inputKey - {txKey}
      in if spenders = {} then u(inputKey := None) else u(inputKey \<mapsto> spenders))"

text \<open>The inner loop of \<open>Updateable\<close>: the drained tx leaves the bucket of each input.\<close>

definition removeInputs :: "tx \<Rightarrow> (id \<rightharpoonup> id set) \<Rightarrow> (id \<rightharpoonup> id set)" where
  "removeInputs t u = fold (removeSpender (ID t)) (InputIDs t) u"

definition fulfillReject :: "id \<Rightarrow> Conflicts \<Rightarrow> Conflicts" where
  "fulfillReject i c =
     (let r = Fulfill (pendingReject c) i
      in c\<lparr>pendingReject := fst r, rejectable := rejectable c @ snd r\<rparr>)"

definition fulfillAccept :: "id \<Rightarrow> Conflicts \<Rightarrow> Conflicts" where
  "fulfillAccept i c =
     (let r = Fulfill (pendingAccept c) i
      in c\<lparr>pendingAccept := fst r, acceptable := acceptable c @ snd r\<rparr>)"

text \<open>
  The body of the first loop of \<open>Updateable\<close>. Go ranges over the conflict set in an
  unspecified order; the model takes the ids in ascending order.
\<close>

definition acceptStep :: "tx \<Rightarrow> Conflicts \<Rightarrow> Conflicts" where
  "acceptStep t c =
     (let c1 = c\<lparr>utxos := removeInputs t (utxos c)\<rparr>;
          c2 = c1\<lparr>txs := (txs c1)(ID t := None)\<rparr>;
          c3 = fulfillAccept (ID t) c2;
          c4 = c3\<lparr>pendingReject := Abandon (pendingReject c3) (ID t)\<rparr>
      in fold fulfillReject (sorted_list_of_set (conflicts c4 t)) c4)"

text \<open>The body of the second loop of \<open>Updateable\<close>.\<close>

definition rejectStep :: "tx \<Rightarrow> Conflicts \<Rightarrow> Conflicts" where
  "rejectStep t c =
     (let c1 = c\<lparr>utxos := removeInputs t (utxos c)\<rparr>;
          c2 = c1\<lparr>txs := (txs c1)(ID t := None)\<rparr>;
          c3 = c2\<lparr>pendingAccept := Abandon (pendingAccept c2) (ID t)\<rparr>
      in fulfillReject (ID t) c3)"

text \<open>
  \<open>Updateable\<close> returns the new state, the drained acceptable txs and the drained
  rejectable txs. The rejectable queue is read after the first loop, so it holds the txs
  that the first loop has just marked.
\<close>

definition Updateable :: "Conflicts \<Rightarrow> Conflicts \<times> tx list \<times> tx list" where
  "Updateable c =
     (let acc = acceptable c;
          c1 = fold acceptStep acc (c\<lparr>acceptable := []\<rparr>);
          rej = rejectable c1;
          c2 = fold rejectStep rej (c1\<lparr>rejectable := []\<rparr>)
      in (c2, acc, rej))"

text \<open>
  The states the manager reaches from \<open>New\<close> by calls of \<open>Add\<close>, \<open>Accept\<close> and
  \<open>Updateable\<close> that return, when every tx given to \<open>Add\<close> satisfies \<open>P\<close>.
\<close>

inductive reachable :: "(tx \<Rightarrow> bool) \<Rightarrow> Conflicts \<Rightarrow> bool" for P :: "tx \<Rightarrow> bool" where
  r_New: "reachable P New"
| r_Add: "reachable P c \<Longrightarrow> P t \<Longrightarrow> Add st c (IsTx t) = Inr c' \<Longrightarrow> reachable P c'"
| r_Accept: "reachable P c \<Longrightarrow> Accept st c i = Inr c' \<Longrightarrow> reachable P c'"
| r_Updateable: "reachable P c \<Longrightarrow> Updateable c = (c', a, r) \<Longrightarrow> reachable P c'"

text \<open>No key of the spender index maps to the empty set.\<close>

definition noEmptyBucket :: "(id \<rightharpoonup> id set) \<Rightarrow> bool" where
  "noEmptyBucket u = (\<forall>k s. u k = Some s \<longrightarrow> s \<noteq> {})"

text \<open>
  Transaction ids are derived from the content: \<open>inp\<close> gives the inputs that belong to an
  id, and a tx is content-addressed when its inputs are those of its id.
\<close>

definition contentAddressed :: "(id \<Rightarrow> id list) \<Rightarrow> tx \<Rightarrow> bool" where
  "contentAddressed inp t \<longleftrightarrow> InputIDs t = inp (ID t)"

text \<open>The txs that the queues and the blockers of a state hold.\<close>

definition held :: "Conflicts \<Rightarrow> tx set" where
  "held c = set (acceptable c) \<union> set (rejectable c)
            \<union> btx ` set (pendingAccept c) \<union> btx ` set (pendingReject c)"

text \<open>
  The spender index agrees with the processing txs: an id is in the bucket of an input
  exactly when the tx of that id is processing and spends the input.
\<close>

definition indexed :: "(id \<Rightarrow> id list) \<Rightarrow> Conflicts \<Rightarrow> bool" where
  "indexed inp c \<longleftrightarrow>
     (\<forall>k i. i \<in> spenders_of (utxos c) k \<longrightarrow> txs c i \<noteq> None \<and> k \<in> set (inp i)) \<and>
     (\<forall>i t. txs c i = Some t \<longrightarrow>
        ID t = i \<and> InputIDs t = inp i \<and> (\<forall>k\<in>set (inp i). i \<in> spenders_of (utxos c) k))"

subsection \<open>Example transactions and states\<close>

definition ex_st :: "id \<Rightarrow> status" where
  "ex_st = (\<lambda>_. Processing)"

definition ex_tx1 :: tx where
  "ex_tx1 = \<lparr>ID = 1, InputIDs = [10], Dependencies = []\<rparr>"

definition ex_tx2 :: tx where
  "ex_tx2 = \<lparr>ID = 2, InputIDs = [10, 11], Dependencies = []\<rparr>"

definition ex_inp :: "id \<Rightarrow> id list" where
  "ex_inp i = (if i = 1 then [10] else if i = 2 then [10, 11] else [])"

definition ex_c1 :: Conflicts where
  "ex_c1 = projr (Add ex_st New (IsTx ex_tx1))"

definition ex_c2 :: Conflicts where
  "ex_c2 = projr (Add ex_st ex_c1 (IsTx ex_tx2))"

definition ex_c3 :: Conflicts where
  "ex_c3 = projr (Accept ex_st ex_c2 1)"

definition ex_tx3 :: tx where
  "ex_tx3 = \<lparr>ID = 3, InputIDs = [12], Dependencies = [1, 2]\<rparr>"

definition ex_st2 :: "id \<Rightarrow> status" where
  "ex_st2 = (\<lambda>_. Processing)(1 := Accepted)"

section \<open>Operation verification of the asset VM: verifyOperation\<close>

text \<open>An epoch is a \<open>uint32\<close>: addition wraps at \<open>2 ^ 32\<close>.\<close>

type_synonym u32 = "32 word"

record UTXOID =
  TxID :: id
  OutputIndex :: u32

text \<open>A UTXO embeds its UTXO id, as the Go struct does.\<close>

record UTXO = UTXOID +
  utxoAssetID :: id
  Out :: nat

text \<open>What the handle \<open>newUniqueTx(vm, txID, nil)\<close> reports about the tx of an id.\<close>

record UniqueTx =
  txStatus :: status
  txEpoch :: u32
  txUTXOs :: "UTXO list"
  createAssetStates :: "u32 list option"

datatype FxOperation = UpdateManagedAssetOperation nat | OtherOperation nat nat

datatype avm_error =
    errInvalidUTXOEpoch
  | errMissingUTXO
  | errInvalidOutputIndex
  | errAssetIDMismatch
  | errUnknownFx
  | errIncompatibleFx
  | errManagedAssetStatus
  | errAssetUpdateEpoch u32 u32
  | errFx nat
  | errGetUTXO id

record Operation =
  opAssetID :: id
  UTXOIDs :: "UTXOID list"
  Op :: FxOperation

text \<open>
  The state of the VM that \<open>verifyOperation\<close> and \<open>GetUTXOs\<close> read, and the cache that
  \<open>verifyFxUsage\<close> writes. The collaborators that are not among the source files are
  fields: \<open>InputIDHash\<close> is the hash that gives the input id of a UTXO id, \<open>utxoDB\<close>
  holds the UTXOs of the state, \<open>fundsIndex\<close> gives the ids of the UTXOs that reference
  an address, in the ascending order of the keys of the database, \<open>typeToFxIndex\<close> maps
  the dynamic type of an operation to the index of its feature extension,
  \<open>managedAssetStatus\<close> is \<open>vm.state.ManagedAssetStatus\<close> (the epoch of the last update,
  the status and the status before it, or \<open>None\<close> for an error of the database) and
  \<open>fxVerifyOperation\<close> is \<open>VerifyOperation\<close> of the feature extension of an index. An
  \<open>ids.BitSet\<close> is a 64-bit word.
\<close>

record VM =
  uniqueTx :: "id \<Rightarrow> UniqueTx"
  InputIDHash :: "id \<Rightarrow> u32 \<Rightarrow> id"
  utxoDB :: "UTXO list"
  fundsIndex :: "nat \<Rightarrow> id list"
  typeToFxIndex :: "nat \<rightharpoonup> nat"
  assetToFxCache :: "id \<rightharpoonup> 64 word"
  managedAssetStatus :: "id \<Rightarrow> (u32 \<times> nat \<times> nat) option"
  fxVerifyOperation :: "nat \<Rightarrow> nat \<Rightarrow> FxOperation \<Rightarrow> nat \<Rightarrow> nat list \<Rightarrow> avm_error option"

definition InputID :: "VM \<Rightarrow> 'a UTXOID_scheme \<Rightarrow> id" where
  "InputID vm x = InputIDHash vm (TxID x) (OutputIndex x)"

text \<open>\<open>vm.state.UTXO\<close>: the UTXO of an input id, \<open>None\<close> when the state has none.\<close>

definition stateUTXO :: "VM \<Rightarrow> id \<Rightarrow> UTXO option" where
  "stateUTXO vm u = find (\<lambda>x. InputID vm x = u) (utxoDB vm)"

definition getUTXO :: "VM \<Rightarrow> UTXOID \<Rightarrow> u32 \<Rightarrow> avm_error + UTXO" where
  "getUTXO vm utxoID epoch =
     (let parent = uniqueTx vm (TxID utxoID);
          inputIndex = OutputIndex utxoID;
          parentStatus = txStatus parent
      in if parentStatus = Accepted \<and> txEpoch parent > epoch then Inl errInvalidUTXOEpoch
         else (case stateUTXO vm (InputID vm utxoID) of
                 Some utxo \<Rightarrow> Inr utxo
               | None \<Rightarrow>
                   if parentStatus \<noteq> Processing then Inl errMissingUTXO
                   else (let parentUTXOs = txUTXOs parent
                         in if (of_nat (length parentUTXOs) :: u32) \<le> inputIndex
                            then Inl errInvalidOutputIndex
                            else Inr (parentUTXOs ! unat inputIndex))))"

text \<open>The dynamic type of an operation, as \<open>reflect.TypeOf\<close> sees it.\<close>

fun typeOf :: "FxOperation \<Rightarrow> nat" where
  "typeOf (UpdateManagedAssetOperation _) = 0"
| "typeOf (OtherOperation ty _) = Suc ty"

definition getFx :: "VM \<Rightarrow> FxOperation \<Rightarrow> avm_error + nat" where
  "getFx vm val = (case typeToFxIndex vm (typeOf val) of None \<Rightarrow> Inl errUnknownFx | Some fx \<Rightarrow> Inr fx)"

definition bitSetContains :: "64 word \<Rightarrow> nat \<Rightarrow> bool" where
  "bitSetContains bs i = (bs AND push_bit i 1 \<noteq> 0)"

definition bitSetAdd :: "nat \<Rightarrow> 64 word \<Rightarrow> 64 word" where
  "bitSetAdd i bs = bs OR push_bit i 1"

definition Fetched :: "status \<Rightarrow> bool" where
  "Fetched s = (s = Processing \<or> s = Accepted \<or> s = Rejected)"

text \<open>\<open>verifyFxUsage\<close> returns its answer and the VM with the cache it has filled.\<close>

definition verifyFxUsage :: "VM \<Rightarrow> nat \<Rightarrow> id \<Rightarrow> bool \<times> VM" where
  "verifyFxUsage vm fxID assetID =
     (case assetToFxCache vm assetID of
        Some fxIDs \<Rightarrow> (bitSetContains fxIDs fxID, vm)
      | None \<Rightarrow>
          (let tx = uniqueTx vm assetID
           in if \<not> Fetched (txStatus tx) then (False, vm)
              else (case createAssetStates tx of
                      None \<Rightarrow> (False, vm)
                    | Some states \<Rightarrow>
                        (let fxIDs = fold (\<lambda>s bs. if s = of_nat fxID then bitSetAdd fxID bs else bs)
                                          states 0
                         in (bitSetContains fxIDs fxID,
                             vm\<lparr>assetToFxCache := (assetToFxCache vm)(assetID \<mapsto> fxIDs)\<rparr>)))))"

text \<open>The first loop of \<open>verifyOperation\<close>: the outputs of the UTXOs of the operation.\<close>

fun operationUTXOs :: "VM \<Rightarrow> u32 \<Rightarrow> id \<Rightarrow> UTXOID list \<Rightarrow> avm_error + nat list" where
  "operationUTXOs vm epoch opAsset [] = Inr []"
| "operationUTXOs vm epoch opAsset (utxoID # rest) =
     (case getUTXO vm utxoID epoch of
        Inl err \<Rightarrow> Inl err
      | Inr utxo \<Rightarrow>
          if utxoAssetID utxo \<noteq> opAsset then Inl errAssetIDMismatch
          else (case operationUTXOs vm epoch opAsset rest of
                  Inl err \<Rightarrow> Inl err
                | Inr outs \<Rightarrow> Inr (Out utxo # outs)))"

fun isUpdateManagedAssetOperation :: "FxOperation \<Rightarrow> bool" where
  "isUpdateManagedAssetOperation (UpdateManagedAssetOperation _) = True"
| "isUpdateManagedAssetOperation (OtherOperation _ _) = False"

text \<open>
  \<open>verifyOperation\<close> returns the error, \<open>None\<close> for nil, and the VM with its cache.
\<close>

definition verifyOperation :: "VM \<Rightarrow> nat \<Rightarrow> u32 \<Rightarrow> Operation \<Rightarrow> nat \<Rightarrow> avm_error option \<times> VM" where
  "verifyOperation vm tx epoch op cred =
     (case operationUTXOs vm epoch (opAssetID op) (UTXOIDs op) of
        Inl err \<Rightarrow> (Some err, vm)
      | Inr outs \<Rightarrow>
          (case getFx vm (Op op) of
             Inl err \<Rightarrow> (Some err, vm)
           | Inr fxIndex \<Rightarrow>
               (let (ok, vm1) = verifyFxUsage vm fxIndex (opAssetID op)
                in if \<not> ok then (Some errIncompatibleFx, vm1)
                   else if isUpdateManagedAssetOperation (Op op) then
                     (case managedAssetStatus vm1 (opAssetID op) of
                        None \<Rightarrow> (Some errManagedAssetStatus, vm1)
                      | Some (epochLastUpdated, _, _) \<Rightarrow>
                          if epoch \<le> epochLastUpdated + 1
                          then (Some (errAssetUpdateEpoch epoch epochLastUpdated), vm1)
                          else (fxVerifyOperation vm1 fxIndex tx (Op op) cred outs, vm1))
                   else (fxVerifyOperation vm1 fxIndex tx (Op op) cred outs, vm1))))"

definition ex_vm :: VM where
  "ex_vm = \<lparr>uniqueTx = (\<lambda>_. \<lparr>txStatus = Accepted, txEpoch = 0, txUTXOs = [], createAssetStates = None\<rparr>),
            InputIDHash = (\<lambda>t i. t + unat i),
            utxoDB = [\<lparr>TxID = 9, OutputIndex = 0, utxoAssetID = 7, Out = 0\<rparr>],
            fundsIndex = (\<lambda>_. []),
            typeToFxIndex = [0 \<mapsto> 0],
            assetToFxCache = [7 \<mapsto> 1],
            managedAssetStatus = (\<lambda>_. Some (0xFFFFFFFF, 0, 0)),
            fxVerifyOperation = (\<lambda>_ _ _ _ _. None)\<rparr>"

definition ex_op :: Operation where
  "ex_op = \<lparr>opAssetID = 7, UTXOIDs = [\<lparr>TxID = 9, OutputIndex = 0\<rparr>], Op = UpdateManagedAssetOperation 0\<rparr>"

section \<open>Fetching UTXOs page by page: GetUTXOs\<close>

text \<open>The constant \<open>maxUTXOsToFetch\<close> of the VM.\<close>

definition maxUTXOsToFetch :: int where
  "maxUTXOsToFetch = 1024"

text \<open>
  Modelled from the spec: \<open>vm.state.Funds\<close>, which is not among the source files. It
  returns the ids of the UTXOs that reference the address and are greater than \<open>start\<close>,
  in ascending order, at most \<open>limit\<close> of them.
\<close>

definition Funds :: "VM \<Rightarrow> nat \<Rightarrow> id \<Rightarrow> int \<Rightarrow> id list" where
  "Funds vm addr start limit = take (nat limit) (filter (\<lambda>u. start < u) (fundsIndex vm addr))"

text \<open>
  The variables of \<open>getPaginatedUTXOs\<close>: the UTXOs found, the ids seen, what is left of
  the limit, and the last address and the last id searched.
\<close>

record page =
  found :: "UTXO list"
  seen :: "id set"
  remaining :: int
  lastAddr :: nat
  lastIndex :: id

text \<open>
  The inner loop, over the ids fetched for one address. It returns an error, or whether
  it has returned from the function, with the variables.
\<close>

fun innerLoop :: "VM \<Rightarrow> nat \<Rightarrow> id list \<Rightarrow> page \<Rightarrow> avm_error + bool \<times> page" where
  "innerLoop vm addr [] p = Inr (False, p)"
| "innerLoop vm addr (utxoID # rest) p =
     (let p1 = p\<lparr>lastIndex := utxoID, lastAddr := addr\<rparr>
      in if utxoID \<in> seen p1 then innerLoop vm addr rest p1
         else (case stateUTXO vm utxoID of
                 None \<Rightarrow> Inl (errGetUTXO utxoID)
               | Some utxo \<Rightarrow>
                   (let p2 = p1\<lparr>found := found p1 @ [utxo], seen := insert utxoID (seen p1),
                                remaining := remaining p1 - 1\<rparr>
                    in if remaining p2 \<le> 0 then Inr (True, p2)
                       else innerLoop vm addr rest p2)))"

text \<open>The outer loop, over the sorted addresses.\<close>

fun outerLoop :: "VM \<Rightarrow> nat \<Rightarrow> id \<Rightarrow> int \<Rightarrow> nat list \<Rightarrow> page \<Rightarrow> avm_error + page" where
  "outerLoop vm startAddr startUTXOID searchSize [] p = Inr p"
| "outerLoop vm startAddr startUTXOID searchSize (addr # rest) p =
     (if addr < startAddr then outerLoop vm startAddr startUTXOID searchSize rest p
      else (let start = (if addr = startAddr then startUTXOID else 0)
            in case innerLoop vm addr (Funds vm addr start searchSize) p of
                 Inl err \<Rightarrow> Inl err
               | Inr (True, p') \<Rightarrow> Inr p'
               | Inr (False, p') \<Rightarrow> outerLoop vm startAddr startUTXOID searchSize rest p'))"

text \<open>
  The set of addresses is given by a list of its elements; \<open>addrs.List()\<close> followed by
  \<open>SortShortIDs\<close> is the sorted list without repetition. An address is a 20-byte id,
  modelled as ids are; \<open>ids.ShortEmpty\<close> is 0.
\<close>

definition getPaginatedUTXOs ::
  "VM \<Rightarrow> nat list \<Rightarrow> nat \<Rightarrow> id \<Rightarrow> int \<Rightarrow> avm_error + UTXO list \<times> nat \<times> id" where
  "getPaginatedUTXOs vm addrs startAddr startUTXOID limit =
     (case outerLoop vm startAddr startUTXOID limit (sort (remdups addrs))
             \<lparr>found = [], seen = {}, remaining = limit, lastAddr = 0, lastIndex = 0\<rparr> of
        Inl err \<Rightarrow> Inl err
      | Inr p \<Rightarrow> Inr (found p, lastAddr p, lastIndex p))"

text \<open>
  \<open>getAllUniqueAddressUTXOs\<close> loops until \<open>Funds\<close> returns no id; \<open>None\<close> stands for a
  loop that does not end.
\<close>

fun allLoop :: "VM \<Rightarrow> id list \<Rightarrow> id \<times> id set \<times> UTXO list \<Rightarrow> avm_error + id \<times> id set \<times> UTXO list" where
  "allLoop vm [] s = Inr s"
| "allLoop vm (utxoID # rest) (lastIdx, sn, us) =
     (if utxoID \<in> sn then allLoop vm rest (utxoID, sn, us)
      else (case stateUTXO vm utxoID of
              None \<Rightarrow> Inl (errGetUTXO utxoID)
            | Some utxo \<Rightarrow> allLoop vm rest (utxoID, insert utxoID sn, us @ [utxo])))"

partial_function (option) getAllUniqueAddressUTXOs ::
  "VM \<Rightarrow> nat \<Rightarrow> id \<times> id set \<times> UTXO list \<Rightarrow> (avm_error + id \<times> id set \<times> UTXO list) option" where
  "getAllUniqueAddressUTXOs vm addr s =
     (let utxoIDs = Funds vm addr (fst s) maxUTXOsToFetch
      in if utxoIDs = [] then Some (Inr s)
         else (case allLoop vm utxoIDs s of
                 Inl err \<Rightarrow> Some (Inl err)
               | Inr s' \<Rightarrow> getAllUniqueAddressUTXOs vm addr s'))"

fun getAllLoop ::
  "VM \<Rightarrow> nat list \<Rightarrow> nat \<times> id \<times> id set \<times> UTXO list \<Rightarrow> (avm_error + UTXO list \<times> nat \<times> id) option" where
  "getAllLoop vm [] (lastA, lastIdx, sn, us) = Some (Inr (us, lastA, lastIdx))"
| "getAllLoop vm (addr # rest) (lastA, lastIdx, sn, us) =
     (case getAllUniqueAddressUTXOs vm addr (0, sn, us) of
        None \<Rightarrow> None
      | Some (Inl err) \<Rightarrow> Some (Inl err)
      | Some (Inr (lastIdx', sn', us')) \<Rightarrow>
          getAllLoop vm rest (if lastIdx' \<noteq> 0 then addr else lastA, lastIdx', sn', us'))"

definition getAllUTXOs :: "VM \<Rightarrow> nat list \<Rightarrow> (avm_error + UTXO list \<times> nat \<times> id) option" where
  "getAllUTXOs vm addrs = getAllLoop vm (sort (remdups addrs)) (0, 0, {}, [])"

definition GetUTXOs ::
  "VM \<Rightarrow> nat list \<Rightarrow> nat \<Rightarrow> id \<Rightarrow> int \<Rightarrow> bool \<Rightarrow> (avm_error + UTXO list \<times> nat \<times> id) option" where
  "GetUTXOs vm addrs startAddr startUTXOID limit paginate =
     (let limit' = (if limit \<le> 0 \<or> limit > maxUTXOsToFetch then maxUTXOsToFetch else limit)
      in if paginate then Some (getPaginatedUTXOs vm addrs startAddr startUTXOID limit')
         else getAllUTXOs vm addrs)"

text \<open>
  The iteration of the caller: it calls \<open>GetUTXOs\<close> in paginated mode, first with the
  empty cursor and then with the cursor that the call before returned, and stops at the
  first page that is empty. It returns the UTXOs of all pages; \<open>None\<close> stands for an
  iteration that needs more calls than \<open>fuel\<close>.
\<close>

fun allPages ::
  "nat \<Rightarrow> VM \<Rightarrow> nat list \<Rightarrow> int \<Rightarrow> nat \<Rightarrow> id \<Rightarrow> (avm_error + UTXO list) option" where
  "allPages 0 vm addrs limit a u = None"
| "allPages (Suc fuel) vm addrs limit a u =
     (case GetUTXOs vm addrs a u limit True of
        None \<Rightarrow> None
      | Some (Inl err) \<Rightarrow> Some (Inl err)
      | Some (Inr (us, a', u')) \<Rightarrow>
          if us = [] then Some (Inr [])
          else (case allPages fuel vm addrs limit a' u' of
                  None \<Rightarrow> None
                | Some (Inl err) \<Rightarrow> Some (Inl err)
                | Some (Inr later) \<Rightarrow> Some (Inr (us @ later))))"

subsection \<open>The entries that a page walks\<close>

text \<open>
  The walk of a page over a list of entries, an entry being an address with the id of a
  UTXO that references it: the inner loop, when the address may change from one id to
  the next.
\<close>

fun walk :: "VM \<Rightarrow> (nat \<times> id) list \<Rightarrow> page \<Rightarrow> avm_error + bool \<times> page" where
  "walk vm [] p = Inr (False, p)"
| "walk vm ((addr, utxoID) # rest) p =
     (let p1 = p\<lparr>lastIndex := utxoID, lastAddr := addr\<rparr>
      in if utxoID \<in> seen p1 then walk vm rest p1
         else (case stateUTXO vm utxoID of
                 None \<Rightarrow> Inl (errGetUTXO utxoID)
               | Some utxo \<Rightarrow>
                   (let p2 = p1\<lparr>found := found p1 @ [utxo], seen := insert utxoID (seen p1),
                                remaining := remaining p1 - 1\<rparr>
                    in if remaining p2 \<le> 0 then Inr (True, p2)
                       else walk vm rest p2)))"

text \<open>The ids of the UTXOs found are distinct, are the ids seen, and count against the limit.\<close>

definition pageInv :: "VM \<Rightarrow> int \<Rightarrow> page \<Rightarrow> bool" where
  "pageInv vm L p \<longleftrightarrow>
     distinct (map (InputID vm) (found p)) \<and> seen p = set (map (InputID vm) (found p)) \<and>
     int (length (found p)) + remaining p = L \<and> 0 < remaining p \<and>
     (\<forall>x\<in>set (found p). stateUTXO vm (InputID vm x) = Some x)"

text \<open>The order of the cursors: by address, then by id.\<close>

definition cursorLess :: "nat \<times> id \<Rightarrow> nat \<times> id \<Rightarrow> bool" where
  "cursorLess c e \<longleftrightarrow> fst c < fst e \<or> (fst c = fst e \<and> snd c < snd e)"

text \<open>The entries of the funds index for a list of addresses, in the order of a scan.\<close>

definition entries :: "VM \<Rightarrow> nat list \<Rightarrow> (nat \<times> id) list" where
  "entries vm as = concat (map (\<lambda>a. map (Pair a) (fundsIndex vm a)) as)"

text \<open>The entries that a page fetches from a cursor: the outer loop without the limit.\<close>

definition entriesFrom :: "VM \<Rightarrow> nat \<Rightarrow> id \<Rightarrow> nat list \<Rightarrow> (nat \<times> id) list" where
  "entriesFrom vm sa su as =
     concat (map (\<lambda>a. map (Pair a) (filter (\<lambda>u. (if a = sa then su else 0) < u) (fundsIndex vm a)))
                 (filter (\<lambda>a. \<not> a < sa) as))"

text \<open>
  The funds index of the queried addresses is well formed: the ids of an address are in
  strictly ascending order, none is the empty id, and the state holds the UTXO of each.
\<close>

definition fundsOK :: "VM \<Rightarrow> nat list \<Rightarrow> bool" where
  "fundsOK vm addrs \<longleftrightarrow>
     (\<forall>a\<in>set addrs. sorted_wrt (<) (fundsIndex vm a) \<and> 0 \<notin> set (fundsIndex vm a) \<and>
        (\<forall>u\<in>set (fundsIndex vm a). stateUTXO vm u \<noteq> None))"

subsection \<open>Example state\<close>

definition ex_utxo :: UTXO where
  "ex_utxo = \<lparr>TxID = 5, OutputIndex = 0, utxoAssetID = 7, Out = 0\<rparr>"

definition ex_vm2 :: VM where
  "ex_vm2 = ex_vm\<lparr>utxoDB := [ex_utxo], fundsIndex := (\<lambda>a. if a = 3 \<or> a = 4 then [5] else [])\<rparr>"

section \<open>The health check of the platform VM: HealthChecks\<close>

text \<open>
  \<open>percentConnected\<close> is a \<open>float64\<close>; its finite values are rationals and are compared
  as such. The check takes what \<open>vm.getPercentConnected()\<close> returned, a value or an
  error, and returns the details and the error.
\<close>

datatype health_error = errPercentConnected nat | errNotWellConnected rat rat

definition isWellConnected :: "nat + rat \<Rightarrow> rat option \<times> health_error option" where
  "isWellConnected r =
     (case r of
        Inl err \<Rightarrow> (None, Some (errPercentConnected err))
      | Inr percentConnected \<Rightarrow>
          if percentConnected < 1 / 2
          then (Some percentConnected, Some (errNotWellConnected percentConnected (1 / 2)))
          else (Some percentConnected, None))"

section \<open>The vertex issuer: snow/engine/avalanche/issuer.go\<close>

text \<open>
  A tx of a vertex as the issuer reads it: its id, the result of \<open>Verify()\<close> and the id
  of its transition, which stands for the transition.
\<close>

record vtx_tx =
  vtxTxID :: id
  Verify :: "nat option"
  TransitionID :: id

record Vertex =
  vertexID :: id
  Txs :: "nat + vtx_tx list"
  vertexEpoch :: "nat + u32"

record issuer =
  vtx :: Vertex
  updatedEpoch :: bool
  issued :: bool
  abandoned :: bool
  vtxDeps :: "id set"
  trDeps :: "id set"
  unfulfilledDeps :: "id set"

text \<open>
  The calls that \<open>Update\<close> makes into the engine and its collaborators whose code is not
  among the source files, in the order in which it makes them.
\<close>

datatype call =
    Batch u32 "id list" "id list list" bool bool bool
  | VtxBlockedAbandon id
  | VtxBlockedFulfill id
  | ConsensusAdd id
  | PushQuery "nat set" u32 id
  | LogError
  | MarkIssued id u32
  | UpdateMissingTransitions
  | Repoll

text \<open>
  The engine \<open>Transitive\<close> as \<open>Update\<close> reads and writes it. \<open>errs\<close> is the error
  collector, which is not among the source files: it is taken to keep the first error
  that is added, and adding nil changes nothing. The answers of the collaborators are
  fields: \<open>VertexIssued\<close> and \<open>TransitionProcessing\<close> of consensus, the epoch of the
  context, and the results of \<open>batch\<close>, \<open>Consensus.Add\<close>, \<open>Validators.Sample\<close>,
  \<open>polls.Add\<close> and \<open>repoll\<close>. What these collaborators do to the engine is not
  modelled: \<open>Update\<close> records the call.
\<close>

record Transitive =
  pending :: "id set"
  errs :: "nat option"
  abandonedVertices :: bool
  RequestID :: u32
  missingTransitions :: "u32 \<rightharpoonup> id set"
  calls :: "call list"
  VertexIssued :: "Vertex \<Rightarrow> bool"
  TransitionProcessing :: "id \<Rightarrow> bool"
  CtxEpoch :: u32
  batch :: "u32 \<Rightarrow> id list \<Rightarrow> id list list \<Rightarrow> bool \<Rightarrow> bool \<Rightarrow> bool \<Rightarrow> nat option"
  consensusAdd :: "Vertex \<Rightarrow> nat option"
  Sample :: "nat list \<times> nat option"
  pollsAdd :: "u32 \<Rightarrow> nat list \<Rightarrow> bool"
  repoll :: "nat option"

definition errsAdd :: "nat option \<Rightarrow> Transitive \<Rightarrow> Transitive" where
  "errsAdd err t = (case errs t of None \<Rightarrow> t\<lparr>errs := err\<rparr> | Some _ \<Rightarrow> t)"

definition call :: "call \<Rightarrow> Transitive \<Rightarrow> Transitive" where
  "call c t = t\<lparr>calls := calls t @ [c]\<rparr>"

text \<open>
  The loop of \<open>Update\<close> over the txs of the vertex: the valid transitions, the invalid
  transition ids (kept only when \<open>updatedEpoch\<close> is set) and the valid transitions that
  are not processing.
\<close>

fun partitionTxs :: "bool \<Rightarrow> (id \<Rightarrow> bool) \<Rightarrow> vtx_tx list \<Rightarrow> id list \<times> id list \<times> id list" where
  "partitionTxs ue processing [] = ([], [], [])"
| "partitionTxs ue processing (x # xs) =
     (let (valid, invalid, unissued) = partitionTxs ue processing xs
      in if Verify x \<noteq> None
         then (valid, if ue then TransitionID x # invalid else invalid, unissued)
         else (TransitionID x # valid, invalid,
               if \<not> processing (TransitionID x) then TransitionID x # unissued else unissued))"

text \<open>The last loop of \<open>Update\<close>, which marks the transitions of the vertex as issued.\<close>

definition markTx :: "u32 \<Rightarrow> vtx_tx \<Rightarrow> Transitive \<Rightarrow> Transitive" where
  "markTx epoch x t =
     (let trID = TransitionID x;
          m = (case missingTransitions t epoch of
                 None \<Rightarrow> missingTransitions t
               | Some s \<Rightarrow> if s - {trID} = {} then (missingTransitions t)(epoch := None)
                           else (missingTransitions t)(epoch \<mapsto> s - {trID}))
      in call (MarkIssued trID epoch) (t\<lparr>missingTransitions := m\<rparr>))"

definition Update :: "issuer \<Rightarrow> Transitive \<Rightarrow> issuer \<times> Transitive" where
  "Update i t =
     (if abandoned i \<or> issued i \<or> vtxDeps i \<noteq> {} \<or> unfulfilledDeps i \<noteq> {}
         \<or> VertexIssued t (vtx i) \<or> errs t \<noteq> None
      then (i, t)
      else
        (let i1 = i\<lparr>issued := True\<rparr>;
             vtxID = vertexID (vtx i1);
             t1 = t\<lparr>pending := pending t - {vtxID}\<rparr>
         in case Txs (vtx i1) of
              Inl err \<Rightarrow> (i1, errsAdd (Some err) t1)
            | Inr txl \<Rightarrow>
                (let (validTransitions, invalidTransitions, unissuedTransitions) =
                       partitionTxs (updatedEpoch i1) (TransitionProcessing t1) txl
                 in case vertexEpoch (vtx i1) of
                      Inl err \<Rightarrow> (i1, errsAdd (Some err) t1)
                    | Inr epoch \<Rightarrow>
                        if length validTransitions \<noteq> length txl then
                          (let restrictions = (if updatedEpoch i1 then [invalidTransitions] else []);
                               err = batch t1 epoch validTransitions restrictions False False True;
                               t2 = call (Batch epoch validTransitions restrictions False False True) t1;
                               t3 = errsAdd err t2;
                               t4 = t3\<lparr>abandonedVertices := True\<rparr>
                           in (i1, call (VtxBlockedAbandon vtxID) t4))
                        else
                          (let currentEpoch = CtxEpoch t1;
                               reissue = (epoch \<noteq> currentEpoch \<and> unissuedTransitions \<noteq> []);
                               err = (if reissue
                                      then batch t1 currentEpoch unissuedTransitions [] True False True
                                      else None);
                               t2 = (if reissue
                                     then call (Batch currentEpoch unissuedTransitions [] True False True) t1
                                     else t1)
                           in if err \<noteq> None then (i1, errsAdd err t2)
                              else if epoch > currentEpoch then
                                (i1, call (VtxBlockedAbandon vtxID) (t2\<lparr>abandonedVertices := True\<rparr>))
                              else
                                (case consensusAdd t2 (vtx i1) of
                                   Some err \<Rightarrow> (i1, errsAdd (Some err) (call (ConsensusAdd vtxID) t2))
                                 | None \<Rightarrow>
                                     (let t3 = call (ConsensusAdd vtxID) t2;
                                          (vdrs, serr) = Sample t3;
                                          t4 = t3\<lparr>RequestID := RequestID t3 + 1\<rparr>;
                                          t5 = (if serr = None \<and> pollsAdd t4 (RequestID t4) vdrs
                                                then call (PushQuery (set vdrs) (RequestID t4) vtxID) t4
                                                else if serr \<noteq> None then call LogError t4
                                                else t4);
                                          t6 = call (VtxBlockedFulfill vtxID) t5;
                                          t7 = fold (markTx epoch) txl t6;
                                          t8 = call UpdateMissingTransitions t7;
                                          t9 = call Repoll t8
                                      in (i1, errsAdd (repoll t9) t9)))))))"

section \<open>The vertex builder: snow/engine/avalanche/vertex/builder.go\<close>

type_synonym bytes = "8 word list"

record innerStatelessVertex =
  Version :: "16 word"
  ChainID :: id
  Height :: "64 word"
  Epoch :: u32
  ParentIDs :: "id list"
  Transitions :: "bytes list"
  Restrictions :: "id list"

record statelessVertex =
  inner :: innerStatelessVertex
  svID :: id
  svBytes :: bytes

text \<open>Modelled from the spec: the codec versions, 0 before the fork and 1 after it.\<close>

definition noEpochTransitionsCodecVersion :: "16 word" where
  "noEpochTransitionsCodecVersion = 0"

definition apricotCodecVersion :: "16 word" where
  "apricotCodecVersion = 1"

text \<open>
  Modelled from the spec: the two sorts, which are not among the source files. Ids are
  sorted ascending in their bytewise order, transitions are sorted by their hash. The
  sort of Go is not stable and the sort of the model is: they agree when transitions
  that differ have hashes that differ.
\<close>

definition SortIDs :: "id list \<Rightarrow> id list" where
  "SortIDs xs = sort xs"

definition SortHashOf :: "(bytes \<Rightarrow> id) \<Rightarrow> bytes list \<Rightarrow> bytes list" where
  "SortHashOf hash xs = sort_key hash xs"

text \<open>
  \<open>Build\<close> takes the hash, the check \<open>innerVtx.Verify\<close> and \<open>Codec.Marshal\<close>, which are
  not among the source files, as arguments. It returns the vertex, \<open>None\<close> for nil, and
  the error.
\<close>

definition Build ::
  "(bytes \<Rightarrow> id) \<Rightarrow> (innerStatelessVertex \<Rightarrow> nat option) \<Rightarrow>
   (16 word \<Rightarrow> innerStatelessVertex \<Rightarrow> bytes \<times> nat option) \<Rightarrow>
   id \<Rightarrow> 64 word \<Rightarrow> u32 \<Rightarrow> id list \<Rightarrow> bytes list \<Rightarrow> id list \<Rightarrow>
   statelessVertex option \<times> nat option" where
  "Build hash verify marshal chainID height epoch parentIDs trs restrictions =
     (let parentIDs' = SortIDs parentIDs;
          trs' = SortHashOf hash trs;
          restrictions' = SortIDs restrictions;
          version = (if epoch = 0 then noEpochTransitionsCodecVersion else apricotCodecVersion);
          innerVtx = \<lparr>Version = version, ChainID = chainID, Height = height, Epoch = epoch,
                      ParentIDs = parentIDs', Transitions = trs', Restrictions = restrictions'\<rparr>
      in case verify innerVtx of
           Some err \<Rightarrow> (None, Some err)
         | None \<Rightarrow>
             (let (vtxBytes, err) = marshal (Version innerVtx) innerVtx
              in (Some \<lparr>inner = innerVtx, svID = hash vtxBytes, svBytes = vtxBytes\<rparr>, err)))"

subsection \<open>Example inputs\<close>

definition ex_hash :: "bytes \<Rightarrow> id" where
  "ex_hash b = length b"

definition ex_marshal :: "16 word \<Rightarrow> innerStatelessVertex \<Rightarrow> bytes \<times> nat option" where
  "ex_marshal v i = (concat (Transitions i), None)"

definition ex_vertex :: Vertex where
  "ex_vertex = \<lparr>vertexID = 5,
                Txs = Inr [\<lparr>vtxTxID = 11, Verify = None, TransitionID = 21\<rparr>,
                           \<lparr>vtxTxID = 12, Verify = Some 1, TransitionID = 22\<rparr>],
                vertexEpoch = Inr 1\<rparr>"

definition ex_issuer :: issuer where
  "ex_issuer = \<lparr>vtx = ex_vertex, updatedEpoch = True, issued = False, abandoned = False,
                vtxDeps = {}, trDeps = {}, unfulfilledDeps = {}\<rparr>"

definition ex_engine :: Transitive where
  "ex_engine = \<lparr>pending = {5}, errs = None, abandonedVertices = False, RequestID = 0,
                missingTransitions = Map.empty, calls = [],
                VertexIssued = (\<lambda>_. False), TransitionProcessing = (\<lambda>_. False), CtxEpoch = 2,
                batch = (\<lambda>_ _ _ _ _ _. None), consensusAdd = (\<lambda>_. None), Sample = ([], None),
                pollsAdd = (\<lambda>_ _. True), repoll = None\<rparr>"

section \<open>Properties of the conflict manager\<close>

lemma noEmptyBucket_addSpender: "noEmptyBucket u \<Longrightarrow> noEmptyBucket (addSpender i k u)"
  by (auto simp: noEmptyBucket_def addSpender_def)

lemma noEmptyBucket_fold_add:
  "noEmptyBucket u \<Longrightarrow> noEmptyBucket (fold (addSpender i) ks u)"
  by (induction ks arbitrary: u) (simp_all add: noEmptyBucket_addSpender)

lemma noEmptyBucket_removeSpender:
  "noEmptyBucket u \<Longrightarrow> noEmptyBucket (removeSpender i k u)"
  by (auto simp: noEmptyBucket_def removeSpender_def Let_def)

lemma noEmptyBucket_fold_remove:
  "noEmptyBucket u \<Longrightarrow> noEmptyBucket (fold (removeSpender i) ks u)"
  by (induction ks arbitrary: u) (simp_all add: noEmptyBucket_removeSpender)

lemma noEmptyBucket_removeInputs: "noEmptyBucket u \<Longrightarrow> noEmptyBucket (removeInputs t u)"
  by (simp add: removeInputs_def noEmptyBucket_fold_remove)

lemma utxos_fulfillReject [simp]: "utxos (fulfillReject i c) = utxos c"
  by (simp add: fulfillReject_def Let_def)
lemma txs_fulfillReject [simp]: "txs (fulfillReject i c) = txs c"
  by (simp add: fulfillReject_def Let_def)
lemma utxos_fulfillAccept [simp]: "utxos (fulfillAccept i c) = utxos c"
  by (simp add: fulfillAccept_def Let_def)
lemma txs_fulfillAccept [simp]: "txs (fulfillAccept i c) = txs c"
  by (simp add: fulfillAccept_def Let_def)
lemma utxos_fold_fulfillReject [simp]: "utxos (fold fulfillReject is c) = utxos c"
  by (induction "is" arbitrary: c) simp_all
lemma txs_fold_fulfillReject [simp]: "txs (fold fulfillReject is c) = txs c"
  by (induction "is" arbitrary: c) simp_all

lemma utxos_acceptStep: "utxos (acceptStep t c) = removeInputs t (utxos c)"
  by (simp add: acceptStep_def Let_def)
lemma txs_acceptStep: "txs (acceptStep t c) = (txs c)(ID t := None)"
  by (simp add: acceptStep_def Let_def)
lemma utxos_rejectStep: "utxos (rejectStep t c) = removeInputs t (utxos c)"
  by (simp add: rejectStep_def Let_def)
lemma txs_rejectStep: "txs (rejectStep t c) = (txs c)(ID t := None)"
  by (simp add: rejectStep_def Let_def)

lemma utxos_fold_acceptStep: "utxos (fold acceptStep ts c) = fold removeInputs ts (utxos c)"
  by (induction ts arbitrary: c) (simp_all add: utxos_acceptStep)
lemma utxos_fold_rejectStep: "utxos (fold rejectStep ts c) = fold removeInputs ts (utxos c)"
  by (induction ts arbitrary: c) (simp_all add: utxos_rejectStep)

lemma utxos_Updateable:
  "Updateable c = (c', a, r) \<Longrightarrow> utxos c' = fold removeInputs (a @ r) (utxos c)"
  by (auto simp: Updateable_def Let_def utxos_fold_acceptStep utxos_fold_rejectStep)

lemma noEmptyBucket_fold_removeInputs:
  "noEmptyBucket u \<Longrightarrow> noEmptyBucket (fold removeInputs ts u)"
  by (induction ts arbitrary: u) (simp_all add: noEmptyBucket_removeInputs)

lemma utxos_Add:
  "Add st c (IsTx t) = Inr c' \<Longrightarrow> utxos c' = fold (addSpender (ID t)) (InputIDs t) (utxos c)"
  by (auto simp: Add_def Let_def)

lemma utxos_Accept: "Accept st c i = Inr c' \<Longrightarrow> utxos c' = utxos c"
  by (auto simp: Accept_def Let_def split: option.splits)

lemma reachable_noEmptyBucket: "reachable P c \<Longrightarrow> noEmptyBucket (utxos c)"
proof (induction rule: reachable.induct)
  case r_New
  show ?case by (simp add: New_def noEmptyBucket_def)
next
  case (r_Add c t st c')
  then show ?case by (simp add: utxos_Add noEmptyBucket_fold_add)
next
  case (r_Accept c st i c')
  then show ?case by (simp add: utxos_Accept)
next
  case (r_Updateable c c' a r)
  then show ?case by (simp add: utxos_Updateable noEmptyBucket_fold_removeInputs)
qed

lemma isVirtuousLoop_iff: "isVirtuousLoop u ks \<longleftrightarrow> (\<forall>k\<in>set ks. u k = None)"
  by (induction ks) auto

lemma spenders_addSpender:
  "spenders_of (addSpender i k' u) k = (if k = k' then insert i (spenders_of u k) else spenders_of u k)"
  by (simp add: addSpender_def spenders_of_def)

lemma spenders_fold_add:
  "spenders_of (fold (addSpender i) ks u) k =
     (if k \<in> set ks then insert i (spenders_of u k) else spenders_of u k)"
  by (induction ks arbitrary: u) (auto simp: spenders_addSpender)

lemma spenders_removeSpender:
  "spenders_of (removeSpender i k' u) k = (if k = k' then spenders_of u k - {i} else spenders_of u k)"
  by (auto simp: removeSpender_def spenders_of_def Let_def)

lemma spenders_fold_remove:
  "spenders_of (fold (removeSpender i) ks u) k =
     (if k \<in> set ks then spenders_of u k - {i} else spenders_of u k)"
  by (induction ks arbitrary: u) (auto simp: spenders_removeSpender)

lemma spenders_removeInputs:
  "spenders_of (removeInputs t u) k =
     (if k \<in> set (InputIDs t) then spenders_of u k - {ID t} else spenders_of u k)"
  by (simp add: removeInputs_def spenders_fold_remove)

lemma spenders_fold_removeInputs:
  "spenders_of (fold removeInputs ts u) k =
     spenders_of u k - {ID t | t. t \<in> set ts \<and> k \<in> set (InputIDs t)}"
  by (induction ts arbitrary: u) (auto simp: spenders_removeInputs)

lemma txs_fold_acceptStep: "txs (fold acceptStep ts c) i = (if i \<in> ID ` set ts then None else txs c i)"
  by (induction ts arbitrary: c) (auto simp: txs_acceptStep)

lemma txs_fold_rejectStep: "txs (fold rejectStep ts c) i = (if i \<in> ID ` set ts then None else txs c i)"
  by (induction ts arbitrary: c) (auto simp: txs_rejectStep)

lemma txs_Updateable:
  "Updateable c = (c', a, r) \<Longrightarrow> txs c' i = (if i \<in> ID ` set (a @ r) then None else txs c i)"
  by (auto simp: Updateable_def Let_def txs_fold_acceptStep txs_fold_rejectStep)

lemma Register_held:
  "set (snd (Register b e)) \<subseteq> {btx e}" "btx ` set (fst (Register b e)) \<subseteq> insert (btx e) (btx ` set b)"
  by (auto simp: Register_def)

lemma Fulfill_held:
  "set (snd (Fulfill b i)) \<subseteq> btx ` set b" "btx ` set (fst (Fulfill b i)) \<subseteq> btx ` set b"
  by (auto simp: Fulfill_def Let_def)

lemma Abandon_held: "btx ` set (Abandon b i) \<subseteq> btx ` set b"
  by (auto simp: Abandon_def)

lemma held_fulfillReject: "held (fulfillReject i c) \<subseteq> held c"
  using Fulfill_held [of "pendingReject c" i]
  by (auto simp: held_def fulfillReject_def Let_def)

lemma held_fulfillAccept: "held (fulfillAccept i c) \<subseteq> held c"
  using Fulfill_held [of "pendingAccept c" i]
  by (auto simp: held_def fulfillAccept_def Let_def)

lemma held_fold_fulfillReject: "held (fold fulfillReject is c) \<subseteq> held c"
proof (induction "is" arbitrary: c)
  case Nil
  show ?case by simp
next
  case (Cons i "is")
  have "held (fold fulfillReject is (fulfillReject i c)) \<subseteq> held (fulfillReject i c)"
    by (rule Cons.IH)
  also have "\<dots> \<subseteq> held c" by (rule held_fulfillReject)
  finally show ?case by simp
qed

lemma held_upd [simp]:
  "held (c\<lparr>utxos := u\<rparr>) = held c" "held (c\<lparr>txs := m\<rparr>) = held c"
  by (simp_all add: held_def)

lemma held_acceptStep: "held (acceptStep t c) \<subseteq> held c"
proof -
  let ?c2 = "c\<lparr>utxos := removeInputs t (utxos c), txs := (txs c)(ID t := None)\<rparr>"
  let ?c3 = "fulfillAccept (ID t) ?c2"
  let ?c4 = "?c3\<lparr>pendingReject := Abandon (pendingReject ?c3) (ID t)\<rparr>"
  have "held ?c4 \<subseteq> held ?c3"
    using Abandon_held [of "pendingReject ?c3" "ID t"] by (auto simp: held_def)
  also have "\<dots> \<subseteq> held ?c2" by (rule held_fulfillAccept)
  also have "\<dots> = held c" by simp
  finally have "held ?c4 \<subseteq> held c" .
  moreover have "acceptStep t c = fold fulfillReject (sorted_list_of_set (conflicts ?c4 t)) ?c4"
    by (simp add: acceptStep_def Let_def)
  ultimately show ?thesis
    using held_fold_fulfillReject [of "sorted_list_of_set (conflicts ?c4 t)" ?c4] by auto
qed

lemma held_rejectStep: "held (rejectStep t c) \<subseteq> held c"
proof -
  let ?c2 = "c\<lparr>utxos := removeInputs t (utxos c), txs := (txs c)(ID t := None)\<rparr>"
  let ?c3 = "?c2\<lparr>pendingAccept := Abandon (pendingAccept ?c2) (ID t)\<rparr>"
  have "held ?c3 \<subseteq> held ?c2"
    using Abandon_held [of "pendingAccept ?c2" "ID t"] by (auto simp: held_def)
  then have "held ?c3 \<subseteq> held c" by simp
  moreover have "rejectStep t c = fulfillReject (ID t) ?c3"
    by (simp add: rejectStep_def Let_def)
  ultimately show ?thesis using held_fulfillReject [of "ID t" ?c3] by auto
qed

lemma held_fold_acceptStep: "held (fold acceptStep ts c) \<subseteq> held c"
proof (induction ts arbitrary: c)
  case Nil
  show ?case by simp
next
  case (Cons t ts)
  show ?case using Cons.IH [of "acceptStep t c"] held_acceptStep [of t c] by auto
qed

lemma held_fold_rejectStep: "held (fold rejectStep ts c) \<subseteq> held c"
proof (induction ts arbitrary: c)
  case Nil
  show ?case by simp
next
  case (Cons t ts)
  show ?case using Cons.IH [of "rejectStep t c"] held_rejectStep [of t c] by auto
qed

lemma held_Updateable:
  assumes "Updateable c = (c', a, r)"
  shows "held c' \<subseteq> held c" "set a \<subseteq> held c" "set r \<subseteq> held c"
proof -
  let ?c1 = "fold acceptStep (acceptable c) (c\<lparr>acceptable := []\<rparr>)"
  have a: "a = acceptable c" and r: "r = rejectable ?c1"
    and c': "c' = fold rejectStep r (?c1\<lparr>rejectable := []\<rparr>)"
    using assms by (auto simp: Updateable_def Let_def)
  have h1: "held ?c1 \<subseteq> held c"
    using held_fold_acceptStep [of "acceptable c" "c\<lparr>acceptable := []\<rparr>"]
    by (auto simp: held_def)
  show "set a \<subseteq> held c" by (auto simp: a held_def)
  show "set r \<subseteq> held c" using h1 by (auto simp: r held_def)
  have "held (?c1\<lparr>rejectable := []\<rparr>) \<subseteq> held ?c1" by (auto simp: held_def)
  then show "held c' \<subseteq> held c"
    using held_fold_rejectStep [of r "?c1\<lparr>rejectable := []\<rparr>"] h1 by (auto simp: c')
qed

lemma held_Add: "Add st c (IsTx t) = Inr c' \<Longrightarrow> held c' \<subseteq> insert t (held c)"
  by (auto simp: Add_def Let_def held_def Register_def)

lemma held_Accept: "Accept st c i = Inr c' \<Longrightarrow> held c' \<subseteq> held c \<union> ran (txs c)"
proof -
  assume a: "Accept st c i = Inr c'"
  then obtain t where t: "txs c i = Some t" by (auto simp: Accept_def split: option.splits)
  have "t \<in> ran (txs c)" using t by (auto simp: ran_def)
  then show ?thesis
    using a t
    by (auto simp: Accept_def Let_def held_def toAccept_def Register_def split: if_splits)
qed

lemma indexed_New: "indexed inp New"
  by (simp add: indexed_def New_def spenders_of_def)

lemma txs_Add: "Add st c (IsTx t) = Inr c' \<Longrightarrow> txs c' = (txs c)(ID t \<mapsto> t)"
  by (auto simp: Add_def Let_def)

lemma txs_Accept: "Accept st c i = Inr c' \<Longrightarrow> txs c' = txs c"
  by (auto simp: Accept_def Let_def split: option.splits)

lemma indexed_Add:
  assumes "indexed inp c" "contentAddressed inp t" "Add st c (IsTx t) = Inr c'"
  shows "indexed inp c'"
  using assms(1,2)
  by (auto simp: indexed_def contentAddressed_def utxos_Add [OF assms(3)] txs_Add [OF assms(3)]
      spenders_fold_add)

lemma indexed_Accept: "indexed inp c \<Longrightarrow> Accept st c i = Inr c' \<Longrightarrow> indexed inp c'"
  by (simp add: indexed_def utxos_Accept txs_Accept)

lemma indexed_drain:
  assumes "indexed inp c" "contentAddressed inp t"
    "utxos c' = removeInputs t (utxos c)" "txs c' = (txs c)(ID t := None)"
  shows "indexed inp c'"
  using assms(1,2)
  unfolding indexed_def contentAddressed_def assms(3,4) spenders_removeInputs
  by (auto split: if_splits)

lemma indexed_acceptStep:
  "indexed inp c \<Longrightarrow> contentAddressed inp t \<Longrightarrow> indexed inp (acceptStep t c)"
  by (rule indexed_drain [where c = c and t = t]) (simp_all add: utxos_acceptStep txs_acceptStep)

lemma indexed_rejectStep:
  "indexed inp c \<Longrightarrow> contentAddressed inp t \<Longrightarrow> indexed inp (rejectStep t c)"
  by (rule indexed_drain [where c = c and t = t]) (simp_all add: utxos_rejectStep txs_rejectStep)

lemma indexed_fold_acceptStep:
  "indexed inp c \<Longrightarrow> \<forall>t\<in>set ts. contentAddressed inp t \<Longrightarrow> indexed inp (fold acceptStep ts c)"
  by (induction ts arbitrary: c) (simp_all add: indexed_acceptStep)

lemma indexed_fold_rejectStep:
  "indexed inp c \<Longrightarrow> \<forall>t\<in>set ts. contentAddressed inp t \<Longrightarrow> indexed inp (fold rejectStep ts c)"
  by (induction ts arbitrary: c) (simp_all add: indexed_rejectStep)

lemma indexed_Updateable:
  assumes "indexed inp c" "\<forall>t\<in>held c. contentAddressed inp t" "Updateable c = (c', a, r)"
  shows "indexed inp c'"
proof -
  let ?c1 = "fold acceptStep a (c\<lparr>acceptable := []\<rparr>)"
  have a: "a = acceptable c" and r: "r = rejectable ?c1"
    and c': "c' = fold rejectStep r (?c1\<lparr>rejectable := []\<rparr>)"
    using assms(3) by (auto simp: Updateable_def Let_def)
  have pa: "\<forall>t\<in>set a. contentAddressed inp t" and pr: "\<forall>t\<in>set r. contentAddressed inp t"
    using held_Updateable(2,3) [OF assms(3)] assms(2) by auto
  have "indexed inp (c\<lparr>acceptable := []\<rparr>)" using assms(1) by (simp add: indexed_def)
  then have "indexed inp ?c1" using pa by (rule indexed_fold_acceptStep)
  then have "indexed inp (?c1\<lparr>rejectable := []\<rparr>)" by (simp add: indexed_def)
  then show ?thesis unfolding c' using pr by (rule indexed_fold_rejectStep)
qed

lemma reachable_indexed:
  assumes "\<And>t. P t \<Longrightarrow> contentAddressed inp t"
  shows "reachable P c \<Longrightarrow> indexed inp c \<and> (\<forall>t\<in>held c. contentAddressed inp t)"
proof (induction rule: reachable.induct)
  case r_New
  show ?case by (simp add: indexed_New) (simp add: held_def New_def)
next
  case (r_Add c t st c')
  then show ?case using held_Add [OF r_Add(3)] assms [OF r_Add(2)]
    by (auto intro: indexed_Add)
next
  case (r_Accept c st i c')
  have "\<forall>t\<in>ran (txs c). contentAddressed inp t"
    using r_Accept.IH by (auto simp: indexed_def ran_def contentAddressed_def)
  then show ?case using r_Accept held_Accept [OF r_Accept(2)]
    by (auto intro: indexed_Accept)
next
  case (r_Updateable c c' a r)
  then show ?case using held_Updateable(1) [OF r_Updateable(2)]
    by (auto intro: indexed_Updateable)
qed

lemma indexed_bucket:
  "indexed inp c \<Longrightarrow> i \<in> spenders_of (utxos c) k \<Longrightarrow> txs c i \<noteq> None \<and> k \<in> set (inp i)"
  by (simp add: indexed_def)

lemma indexed_tx:
  "indexed inp c \<Longrightarrow> txs c i = Some t \<Longrightarrow>
   ID t = i \<and> InputIDs t = inp i \<and> (\<forall>k\<in>set (inp i). i \<in> spenders_of (utxos c) k)"
  by (simp add: indexed_def)

lemma fold_union: "fold (\<lambda>k acc. acc \<union> f k) ks A = A \<union> (\<Union>k\<in>set ks. f k)"
  by (induction ks arbitrary: A) auto

lemma conflicts_eq: "conflicts c t = (\<Union>k\<in>set (InputIDs t). spenders_of (utxos c) k)"
  by (simp add: conflicts_def fold_union)

lemma IsVirtuous_spenders:
  assumes "noEmptyBucket (utxos c)"
  shows "IsVirtuous c (IsTx t) = Inr (\<forall>k\<in>set (InputIDs t). spenders_of (utxos c) k = {})"
proof -
  have "utxos c k = None \<longleftrightarrow> spenders_of (utxos c) k = {}" for k
    using assms by (auto simp: noEmptyBucket_def spenders_of_def split: option.splits)
  then show ?thesis by (simp add: IsVirtuous_def isVirtuousLoop_iff)
qed

lemma indexed_no_spender:
  assumes "indexed inp c"
  shows "(\<forall>k\<in>set (InputIDs t). spenders_of (utxos c) k = {}) \<longleftrightarrow>
         \<not> (\<exists>i t'. txs c i = Some t' \<and> set (InputIDs t') \<inter> set (InputIDs t) \<noteq> {})"
proof
  assume l: "\<forall>k\<in>set (InputIDs t). spenders_of (utxos c) k = {}"
  show "\<not> (\<exists>i t'. txs c i = Some t' \<and> set (InputIDs t') \<inter> set (InputIDs t) \<noteq> {})"
  proof
    assume "\<exists>i t'. txs c i = Some t' \<and> set (InputIDs t') \<inter> set (InputIDs t) \<noteq> {}"
    then obtain i t' k where "txs c i = Some t'" "k \<in> set (InputIDs t')" "k \<in> set (InputIDs t)"
      by auto
    then have "i \<in> spenders_of (utxos c) k" using indexed_tx [OF assms, of i t'] by auto
    with l \<open>k \<in> set (InputIDs t)\<close> show False by auto
  qed
next
  assume r: "\<not> (\<exists>i t'. txs c i = Some t' \<and> set (InputIDs t') \<inter> set (InputIDs t) \<noteq> {})"
  show "\<forall>k\<in>set (InputIDs t). spenders_of (utxos c) k = {}"
  proof (rule ballI, rule ccontr)
    fix k
    assume k: "k \<in> set (InputIDs t)" and "spenders_of (utxos c) k \<noteq> {}"
    then obtain i where i: "i \<in> spenders_of (utxos c) k" by auto
    then obtain t' where t': "txs c i = Some t'" and ki: "k \<in> set (inp i)"
      using indexed_bucket [OF assms i] by auto
    have "InputIDs t' = inp i" using indexed_tx [OF assms t'] by simp
    with ki have "k \<in> set (InputIDs t') \<inter> set (InputIDs t)" using k by simp
    with r t' show False by blast
  qed
qed

subsection \<open>Example states\<close>

lemma Add_IsTx: "Add st c (IsTx t) = Inr (projr (Add st c (IsTx t)))"
  by (simp add: Add_def Let_def)

lemma Accept_Some: "txs c i = Some t \<Longrightarrow> Accept st c i = Inr (projr (Accept st c i))"
  by (simp add: Accept_def Let_def)

lemma ex_ca: "contentAddressed ex_inp ex_tx1" "contentAddressed ex_inp ex_tx2"
  by (simp_all add: contentAddressed_def ex_inp_def ex_tx1_def ex_tx2_def)

lemma ex_utxos_c1: "utxos ex_c1 = [10 \<mapsto> {1}]"
  unfolding ex_c1_def
  by (simp add: utxos_Add [OF Add_IsTx] ex_tx1_def New_def addSpender_def spenders_of_def)

lemma ex_txs_c1: "txs ex_c1 = [1 \<mapsto> ex_tx1]"
  unfolding ex_c1_def by (simp add: txs_Add [OF Add_IsTx] ex_tx1_def New_def)

lemma ex_txs_c2: "txs ex_c2 1 = Some ex_tx1"
  unfolding ex_c2_def by (simp add: txs_Add [OF Add_IsTx] ex_txs_c1 ex_tx2_def)

lemma ex_utxos_c2: "utxos ex_c2 10 = Some {1, 2}"
  unfolding ex_c2_def
  by (auto simp add: utxos_Add [OF Add_IsTx] ex_utxos_c1 ex_tx2_def addSpender_def spenders_of_def)

lemma ex_reach:
  assumes "P ex_tx1" "P ex_tx2"
  shows "reachable P ex_c1" "reachable P ex_c2" "reachable P ex_c3"
proof -
  show 1: "reachable P ex_c1"
    unfolding ex_c1_def
  proof (rule r_Add)
    show "reachable P New" by (rule r_New)
    show "P ex_tx1" by (rule assms)
    show "Add ex_st New (IsTx ex_tx1) = Inr (projr (Add ex_st New (IsTx ex_tx1)))"
      by (rule Add_IsTx)
  qed
  show 2: "reachable P ex_c2"
    unfolding ex_c2_def
  proof (rule r_Add)
    show "reachable P ex_c1" by (rule 1)
    show "P ex_tx2" by (rule assms)
    show "Add ex_st ex_c1 (IsTx ex_tx2) = Inr (projr (Add ex_st ex_c1 (IsTx ex_tx2)))"
      by (rule Add_IsTx)
  qed
  show "reachable P ex_c3"
    unfolding ex_c3_def
  proof (rule r_Accept)
    show "reachable P ex_c2" by (rule 2)
    show "Accept ex_st ex_c2 1 = Inr (projr (Accept ex_st ex_c2 1))"
      by (rule Accept_Some [OF ex_txs_c2])
  qed
qed

lemma ex_acceptable_c3: "acceptable ex_c3 = [ex_tx1]"
  by (simp add: ex_c3_def ex_c2_def ex_c1_def Accept_def Add_def Let_def Register_def New_def
      toAccept_def unacceptedDeps_def ex_tx1_def ex_tx2_def)

lemma Updateable_triple:
  "Updateable c = (fst (Updateable c), fst (snd (Updateable c)), snd (snd (Updateable c)))"
  by simp

lemma Updateable_acc: "fst (snd (Updateable c)) = acceptable c"
  by (simp add: Updateable_def Let_def)

subsection \<open>Symmetric removal\<close>

text \<open>
  Claim C1. In a state reached with content-addressed txs, every tx that a call of
  \<open>Updateable\<close> drains, as acceptable or as rejectable, is gone when the call returns:
  its id is not a key of \<open>txs\<close>, it is in no bucket of \<open>utxos\<close>, and no bucket of
  \<open>utxos\<close> is left empty.
\<close>

theorem Updateable_symmetric_removal:
  assumes "reachable (contentAddressed inp) c" "Updateable c = (c', acc, rej)"
    "t \<in> set acc \<union> set rej"
  shows "txs c' (ID t) = None \<and> (\<forall>k. ID t \<notin> spenders_of (utxos c') k)
         \<and> noEmptyBucket (utxos c')"
proof -
  have inv: "indexed inp c" and h: "\<forall>t\<in>held c. contentAddressed inp t"
    using reachable_indexed [of "contentAddressed inp" inp c] assms(1) by auto
  have t: "t \<in> set (acc @ rej)" using assms(3) by simp
  then have ca: "contentAddressed inp t"
    using held_Updateable(2,3) [OF assms(2)] h by auto
  have "txs c' (ID t) = None" using t by (simp add: txs_Updateable [OF assms(2)] del: set_append)
  moreover have "ID t \<notin> spenders_of (utxos c') k" for k
  proof
    assume "ID t \<in> spenders_of (utxos c') k"
    then have m: "ID t \<in> spenders_of (utxos c) k"
      and n: "ID t \<notin> {ID t' | t'. t' \<in> set (acc @ rej) \<and> k \<in> set (InputIDs t')}"
      unfolding utxos_Updateable [OF assms(2)] spenders_fold_removeInputs by blast+
    from m inv have "k \<in> set (inp (ID t))" by (simp add: indexed_def)
    then have "k \<in> set (InputIDs t)" using ca by (simp add: contentAddressed_def)
    with n t show False by blast
  qed
  moreover have "noEmptyBucket (utxos c')"
    using reachable_noEmptyBucket [OF assms(1)]
    by (simp add: utxos_Updateable [OF assms(2)] noEmptyBucket_fold_removeInputs)
  ultimately show ?thesis by blast
qed

theorem Updateable_symmetric_removal_witness:
  "reachable (contentAddressed ex_inp) ex_c3 \<and> ex_tx1 \<in> set (fst (snd (Updateable ex_c3))) \<and>
   txs (fst (Updateable ex_c3)) (ID ex_tx1) = None \<and>
   (\<forall>k. ID ex_tx1 \<notin> spenders_of (utxos (fst (Updateable ex_c3))) k) \<and>
   noEmptyBucket (utxos (fst (Updateable ex_c3)))"
proof -
  have r: "reachable (contentAddressed ex_inp) ex_c3" using ex_ca by (rule ex_reach)
  have m: "ex_tx1 \<in> set (fst (snd (Updateable ex_c3)))"
    by (simp add: Updateable_acc ex_acceptable_c3)
  then have "ex_tx1 \<in> set (fst (snd (Updateable ex_c3))) \<union> set (snd (snd (Updateable ex_c3)))"
    by simp
  from Updateable_symmetric_removal [OF r Updateable_triple this] r m show ?thesis by simp
qed

subsection \<open>The conflicts of a tx\<close>

text \<open>
  Claim C2, as stated, fails: \<open>Conflicts\<close> returns the union of the buckets and does not
  take the id of the tx out. After \<open>Add\<close> of the tx with id 1 and input 10, the conflicts
  of that same tx are the set that holds its own id.
\<close>

theorem ConflictsOf_keeps_own_id_counterexample:
  "ConflictsOf ex_c1 (IsTx ex_tx1) = Inr {1} \<and> ID ex_tx1 = 1 \<and> txs ex_c1 1 = Some ex_tx1"
  by (simp add: ConflictsOf_def conflicts_eq ex_utxos_c1 ex_txs_c1 spenders_of_def ex_tx1_def)

text \<open>
  Claim C2, amended. For every state and every tx, \<open>Conflicts\<close> returns exactly the union
  of the buckets of the inputs of the tx, and does not take the id of the tx out. In
  every state reached by \<open>Add\<close>, \<open>Accept\<close> and \<open>Updateable\<close> with content-addressed txs:
  when the tx is not processing, the result does not hold its id, and so is the union
  without the id; when the tx is processing and has an input, the result holds its id.
\<close>

theorem ConflictsOf_union:
  "ConflictsOf c (IsTx t) = Inr (\<Union>k\<in>set (InputIDs t). spenders_of (utxos c) k) \<and>
   (reachable P c \<and> (\<forall>t'. P t' \<longrightarrow> contentAddressed inp t') \<longrightarrow>
      (txs c (ID t) = None \<longrightarrow>
         ID t \<notin> (\<Union>k\<in>set (InputIDs t). spenders_of (utxos c) k) \<and>
         ConflictsOf c (IsTx t) =
           Inr ((\<Union>k\<in>set (InputIDs t). spenders_of (utxos c) k) - {ID t})) \<and>
      (txs c (ID t) = Some t \<and> InputIDs t \<noteq> [] \<longrightarrow>
         ID t \<in> (\<Union>k\<in>set (InputIDs t). spenders_of (utxos c) k)))"
proof -
  have 1: "ConflictsOf c (IsTx t) = Inr (\<Union>k\<in>set (InputIDs t). spenders_of (utxos c) k)"
    by (simp add: ConflictsOf_def conflicts_eq)
  have 2: "ID t \<notin> (\<Union>k\<in>set (InputIDs t). spenders_of (utxos c) k)"
    if "indexed inp c" "txs c (ID t) = None"
  proof
    assume "ID t \<in> (\<Union>k\<in>set (InputIDs t). spenders_of (utxos c) k)"
    then obtain k where k: "ID t \<in> spenders_of (utxos c) k" by auto
    from indexed_bucket [OF that(1) k] that(2) show False by simp
  qed
  have 3: "ID t \<in> (\<Union>k\<in>set (InputIDs t). spenders_of (utxos c) k)"
    if "indexed inp c" "txs c (ID t) = Some t" "InputIDs t \<noteq> []"
  proof -
    from that(3) obtain k where k: "k \<in> set (InputIDs t)" by (cases "InputIDs t") auto
    from indexed_tx [OF that(1,2)] have "InputIDs t = inp (ID t)"
      and "\<forall>k\<in>set (inp (ID t)). ID t \<in> spenders_of (utxos c) k" by simp_all
    with k show ?thesis by auto
  qed
  have "indexed inp c" if "reachable P c" "\<forall>t'. P t' \<longrightarrow> contentAddressed inp t'"
    using reachable_indexed [of P inp c] that by blast
  with 1 2 3 show ?thesis by auto
qed

theorem ConflictsOf_union_witness:
  "reachable (contentAddressed ex_inp) ex_c1 \<and>
   txs ex_c1 (ID ex_tx2) = None \<and> ID ex_tx2 = 2 \<and>
   ConflictsOf ex_c1 (IsTx ex_tx2) = Inr {1} \<and>
   txs ex_c1 (ID ex_tx1) = Some ex_tx1 \<and> InputIDs ex_tx1 \<noteq> [] \<and>
   ID ex_tx1 \<in> (\<Union>k\<in>set (InputIDs ex_tx1). spenders_of (utxos ex_c1) k)"
proof -
  have r: "reachable (contentAddressed ex_inp) ex_c1" using ex_ca by (rule ex_reach)
  have n: "txs ex_c1 (ID ex_tx2) = None" by (simp add: ex_txs_c1 ex_tx2_def)
  have m: "txs ex_c1 (ID ex_tx1) = Some ex_tx1" "InputIDs ex_tx1 \<noteq> []"
    by (simp_all add: ex_txs_c1 ex_tx1_def)
  have a: "\<forall>t'. contentAddressed ex_inp t' \<longrightarrow> contentAddressed ex_inp t'" by simp
  from ConflictsOf_union [of ex_c1 ex_tx2 "contentAddressed ex_inp" ex_inp] r n a
  have 1: "ConflictsOf ex_c1 (IsTx ex_tx2) = Inr {1} \<and> ID ex_tx2 = 2"
    by (simp add: ex_utxos_c1 spenders_of_def ex_tx2_def)
  from ConflictsOf_union [of ex_c1 ex_tx1 "contentAddressed ex_inp" ex_inp] r m a
  have 2: "ID ex_tx1 \<in> (\<Union>k\<in>set (InputIDs ex_tx1). spenders_of (utxos ex_c1) k)"
    by blast
  from r n m 1 2 show ?thesis by blast
qed

subsection \<open>Virtuous txs\<close>

text \<open>
  Claim C3. In every reachable state, \<open>IsVirtuous\<close> returns true exactly when the spender
  set of every input of the tx is empty; when the txs are content-addressed this is to
  say that no processing tx spends an input of the tx.
\<close>

theorem IsVirtuous_iff_no_spender:
  assumes "reachable P c"
  shows "IsVirtuous c (IsTx t) = Inr (\<forall>k\<in>set (InputIDs t). spenders_of (utxos c) k = {}) \<and>
    ((\<forall>t'. P t' \<longrightarrow> contentAddressed inp t') \<longrightarrow>
       IsVirtuous c (IsTx t) =
         Inr (\<not> (\<exists>i t'. txs c i = Some t' \<and> set (InputIDs t') \<inter> set (InputIDs t) \<noteq> {})))"
proof -
  have 1: "IsVirtuous c (IsTx t) = Inr (\<forall>k\<in>set (InputIDs t). spenders_of (utxos c) k = {})"
    using reachable_noEmptyBucket [OF assms] by (rule IsVirtuous_spenders)
  have "IsVirtuous c (IsTx t) =
         Inr (\<not> (\<exists>i t'. txs c i = Some t' \<and> set (InputIDs t') \<inter> set (InputIDs t) \<noteq> {}))"
    if "\<forall>t'. P t' \<longrightarrow> contentAddressed inp t'"
  proof -
    have "indexed inp c" using reachable_indexed [of P inp c] assms that by blast
    from indexed_no_spender [OF this, of t] 1 show ?thesis by simp
  qed
  with 1 show ?thesis by blast
qed

theorem IsVirtuous_iff_no_spender_witness:
  "reachable (contentAddressed ex_inp) ex_c1 \<and>
   IsVirtuous ex_c1 (IsTx ex_tx2) = Inr False \<and>
   spenders_of (utxos ex_c1) 10 = {1} \<and> txs ex_c1 1 = Some ex_tx1 \<and>
   IsVirtuous ex_c1 (IsTx \<lparr>ID = 3, InputIDs = [12], Dependencies = []\<rparr>) = Inr True"
proof -
  have r: "reachable (contentAddressed ex_inp) ex_c1" using ex_ca by (rule ex_reach)
  have s: "spenders_of (utxos ex_c1) 10 = {1}" "spenders_of (utxos ex_c1) 11 = {}"
    "spenders_of (utxos ex_c1) 12 = {}"
    by (simp_all add: ex_utxos_c1 spenders_of_def)
  from IsVirtuous_iff_no_spender [OF r, of ex_tx2 ex_inp]
  have "IsVirtuous ex_c1 (IsTx ex_tx2) = Inr False"
    by (simp add: s ex_tx2_def)
  moreover
  from IsVirtuous_iff_no_spender [OF r, of "\<lparr>ID = 3, InputIDs = [12], Dependencies = []\<rparr>" ex_inp]
  have "IsVirtuous ex_c1 (IsTx \<lparr>ID = 3, InputIDs = [12], Dependencies = []\<rparr>) = Inr True"
    by (simp add: s)
  ultimately show ?thesis using r s by (simp add: ex_txs_c1)
qed

subsection \<open>No empty bucket\<close>

text \<open>
  Claim C9. In every state reached from \<open>New\<close> by \<open>Add\<close>, \<open>Accept\<close> and \<open>Updateable\<close>,
  whatever the txs, every key of \<open>utxos\<close> maps to a set that is not empty.
\<close>

theorem reachable_no_empty_bucket:
  "reachable P c \<Longrightarrow> utxos c k = Some s \<Longrightarrow> s \<noteq> {}"
  using reachable_noEmptyBucket [of P c] by (auto simp: noEmptyBucket_def)

theorem reachable_no_empty_bucket_witness:
  "reachable (\<lambda>_. True) ex_c2 \<and> utxos ex_c2 10 = Some {1, 2} \<and> {1, 2 :: id} \<noteq> {}"
proof -
  have r: "reachable (\<lambda>_. True) ex_c2" by (rule ex_reach) simp_all
  from reachable_no_empty_bucket [OF r ex_utxos_c2] r ex_utxos_c2 show ?thesis by simp
qed

subsection \<open>The precondition of Accept\<close>

text \<open>
  Claim C10. When the id is a key of \<open>txs\<close>, \<open>Accept\<close> returns and registers, in
  \<open>pendingAccept\<close>, an acceptor for the tx of that id whose dependency set is exactly the
  set of the ids of the dependencies of the tx whose status is not \<open>Accepted\<close>. When
  the id is not a key of \<open>txs\<close>, \<open>Accept\<close> dereferences the nil tx.
\<close>

theorem Accept_needs_processing_tx:
  "(\<forall>t. txs c i = Some t \<longrightarrow>
      Accept st c i =
        Inr (c\<lparr>pendingAccept :=
                 fst (Register (pendingAccept c)
                       \<lparr>deps = {d \<in> set (Dependencies t). st d \<noteq> Accepted}, btx = t\<rparr>),
               acceptable :=
                 acceptable c @
                 snd (Register (pendingAccept c)
                       \<lparr>deps = {d \<in> set (Dependencies t). st d \<noteq> Accepted}, btx = t\<rparr>)\<rparr>)) \<and>
   (txs c i = None \<longrightarrow> Accept st c i = Inl nilDereference)"
  by (simp add: Accept_def Let_def toAccept_def unacceptedDeps_def)

theorem Accept_needs_processing_tx_witness:
  "pendingAccept (projr (Accept ex_st2 (New\<lparr>txs := [3 \<mapsto> ex_tx3]\<rparr>) 3))
     = [\<lparr>deps = {2}, btx = ex_tx3\<rparr>] \<and>
   Accept ex_st2 (New\<lparr>txs := [3 \<mapsto> ex_tx3]\<rparr>) 4 = Inl nilDereference"
proof -
  let ?c = "New\<lparr>txs := [3 \<mapsto> ex_tx3]\<rparr>"
  have d: "{d \<in> set (Dependencies ex_tx3). ex_st2 d \<noteq> Accepted} = {2}"
    by (auto simp: ex_tx3_def ex_st2_def)
  have "txs ?c 3 = Some ex_tx3" "txs ?c 4 = None" by simp_all
  with Accept_needs_processing_tx [of ?c 3 ex_st2] Accept_needs_processing_tx [of ?c 4 ex_st2]
  show ?thesis by (simp add: d Register_def New_def)
qed

section \<open>Properties of operation verification\<close>

text \<open>
  The check of \<open>verifyOperation\<close> on the epoch, as the code makes it: on 32-bit words,
  where \<open>lastUpdated + 1\<close> wraps.
\<close>

lemma verifyOperation_update_epoch:
  assumes "isUpdateManagedAssetOperation (Op op)"
    "managedAssetStatus vm (opAssetID op) = Some (lastUpdated, s, s')"
  shows "fst (verifyOperation vm tx epoch op cred) = None \<Longrightarrow> \<not> epoch \<le> lastUpdated + 1"
    and "epoch \<le> lastUpdated + 1 \<Longrightarrow> fst (verifyOperation vm tx epoch op cred) \<noteq> None"
  using assms
  by (auto simp: verifyOperation_def verifyFxUsage_def Let_def
      split: sum.splits option.splits prod.splits if_splits)

lemma verifyOperation_update_epoch_no_wrap:
  assumes "isUpdateManagedAssetOperation (Op op)"
    "managedAssetStatus vm (opAssetID op) = Some (lastUpdated, s, s')" "unat lastUpdated + 1 < 2 ^ 32"
  shows "(fst (verifyOperation vm tx epoch op cred) = None \<longrightarrow> unat lastUpdated + 2 \<le> unat epoch) \<and>
         (unat epoch \<le> unat lastUpdated + 1 \<longrightarrow> fst (verifyOperation vm tx epoch op cred) \<noteq> None)"
proof -
  have "unat (lastUpdated + 1) = unat lastUpdated + 1"
    using assms(3) by (simp add: unat_word_ariths)
  then have "epoch \<le> lastUpdated + 1 \<longleftrightarrow> unat epoch \<le> unat lastUpdated + 1"
    by (simp add: word_le_nat_alt)
  with verifyOperation_update_epoch [OF assms(1,2)] show ?thesis
    by (metis Suc_eq_plus1 add_2_eq_Suc' not_less_eq_eq)
qed

text \<open>
  Claim C4 holds on the code when \<open>last_updated_epoch + 1\<close> does not wrap, as the lemma
  above shows, and fails when it does. For a managed asset last updated in epoch
  \<open>2 ^ 32 - 1\<close>, the update operation of a tx in epoch 5 passes the check and verifies,
  although 5 is not beyond the epoch of the last update.
\<close>

theorem verifyOperation_epoch_wraps:
  "isUpdateManagedAssetOperation (Op ex_op) \<and>
   managedAssetStatus ex_vm (opAssetID ex_op) = Some (0xFFFFFFFF, 0, 0) \<and>
   fst (verifyOperation ex_vm 0 5 ex_op 0) = None \<and>
   unat (5 :: u32) \<le> unat (0xFFFFFFFF :: u32) + 1"
  by (simp add: verifyOperation_def ex_vm_def ex_op_def getUTXO_def getFx_def verifyFxUsage_def
      bitSetContains_def stateUTXO_def InputID_def Let_def)

section \<open>Properties of the health check\<close>

lemma isWellConnected_half:
  "snd (isWellConnected (Inr p)) \<noteq> None \<longleftrightarrow> p < 1 / 2"
  by (simp add: isWellConnected_def)

text \<open>
  Claim C5 fails on the code: the check compares with the constant one half and has no
  access to the quorum threshold. With a threshold of three quarters, a node connected
  to five eighths of the stake passes the check.
\<close>

theorem isWellConnected_ignores_alpha:
  "isWellConnected (Inr (5 / 8)) = (Some (5 / 8), None) \<and> (5 / 8 :: rat) < 3 / 4"
  by (simp add: isWellConnected_def)

section \<open>Properties of the vertex issuer\<close>

lemma partitionTxs_eq:
  "partitionTxs ue pr xs =
     (map TransitionID (filter (\<lambda>x. Verify x = None) xs),
      if ue then map TransitionID (filter (\<lambda>x. Verify x \<noteq> None) xs) else [],
      map TransitionID (filter (\<lambda>x. Verify x = None \<and> \<not> pr (TransitionID x)) xs))"
  by (induction xs) (auto simp: Let_def)

lemma length_filter_neq: "\<exists>x\<in>set xs. \<not> P x \<Longrightarrow> length (filter P xs) \<noteq> length xs"
  by (metis filter_id_conv length_filter_less nat_neq_iff filter_True)

text \<open>
  What \<open>Update\<close> does when it passes its guard, the vertex gives its txs and its epoch,
  some tx fails verification and \<open>updatedEpoch\<close> is set: it marks the issuer as issued,
  takes the vertex out of the pending set, batches the transitions of the valid txs
  with one restriction entry that lists the transitions of the invalid txs, adds the
  error of the batch to the errors, sets \<open>abandonedVertices\<close> and abandons the vertex in
  \<open>vtxBlocked\<close>; it makes no other call, and does not add the vertex to consensus. The
  epoch of the batch is the epoch of the vertex.
\<close>

lemma Update_invalid_txs:
  assumes "\<not> abandoned i" "\<not> issued i" "vtxDeps i = {}" "unfulfilledDeps i = {}"
    "\<not> VertexIssued t (vtx i)" "errs t = None"
    "Txs (vtx i) = Inr txl" "vertexEpoch (vtx i) = Inr epoch"
    "\<exists>x\<in>set txl. Verify x \<noteq> None" "updatedEpoch i"
  shows "Update i t =
     (i\<lparr>issued := True\<rparr>,
      t\<lparr>pending := pending t - {vertexID (vtx i)},
        errs := batch t epoch (map TransitionID (filter (\<lambda>x. Verify x = None) txl))
                  [map TransitionID (filter (\<lambda>x. Verify x \<noteq> None) txl)] False False True,
        abandonedVertices := True,
        calls := calls t @
          [Batch epoch (map TransitionID (filter (\<lambda>x. Verify x = None) txl))
             [map TransitionID (filter (\<lambda>x. Verify x \<noteq> None) txl)] False False True,
           VtxBlockedAbandon (vertexID (vtx i))]\<rparr>) \<and>
     (\<forall>v. ConsensusAdd v \<notin> set (drop (length (calls t)) (calls (snd (Update i t)))))"
proof -
  have "length (filter (\<lambda>x. Verify x = None) txl) \<noteq> length txl"
    using assms(9) by (intro length_filter_neq) auto
  then show ?thesis
    using assms by (simp add: Update_def Let_def partitionTxs_eq errsAdd_def call_def)
qed

lemma Update_invalid_txs_example:
  "calls (snd (Update ex_issuer ex_engine)) =
     [Batch 1 [21] [[22]] False False True, VtxBlockedAbandon 5] \<and>
   abandonedVertices (snd (Update ex_issuer ex_engine)) \<and>
   pending (snd (Update ex_issuer ex_engine)) = {} \<and>
   issued (fst (Update ex_issuer ex_engine))"
proof -
  have "Txs (vtx ex_issuer) = Inr [\<lparr>vtxTxID = 11, Verify = None, TransitionID = 21\<rparr>,
                                   \<lparr>vtxTxID = 12, Verify = Some 1, TransitionID = 22\<rparr>]"
    and "vertexEpoch (vtx ex_issuer) = Inr 1"
    and "\<not> abandoned ex_issuer" "\<not> issued ex_issuer" "vtxDeps ex_issuer = {}"
      "unfulfilledDeps ex_issuer = {}" "updatedEpoch ex_issuer"
    and "\<not> VertexIssued ex_engine (vtx ex_issuer)" "errs ex_engine = None"
    by (simp_all add: ex_issuer_def ex_vertex_def ex_engine_def)
  from Update_invalid_txs [OF this(3,4,5,6,8,9,1,2) _ this(7)]
  show ?thesis by (simp add: ex_engine_def ex_issuer_def ex_vertex_def)
qed

text \<open>
  So the batch is made for the current epoch exactly when the current epoch is the
  epoch of the vertex.
\<close>

lemma Update_invalid_txs_current_epoch:
  assumes "\<not> abandoned i" "\<not> issued i" "vtxDeps i = {}" "unfulfilledDeps i = {}"
    "\<not> VertexIssued t (vtx i)" "errs t = None"
    "Txs (vtx i) = Inr txl" "vertexEpoch (vtx i) = Inr epoch"
    "\<exists>x\<in>set txl. Verify x \<noteq> None" "updatedEpoch i"
  shows "Batch (CtxEpoch t) (map TransitionID (filter (\<lambda>x. Verify x = None) txl))
             [map TransitionID (filter (\<lambda>x. Verify x \<noteq> None) txl)] False False True
           \<in> set (calls (snd (Update i t))) - set (calls t) \<Longrightarrow> epoch = CtxEpoch t"
  using Update_invalid_txs [OF assms] by auto

text \<open>
  Claim C7 fails on the code in the epoch of the batch. The comment of the field
  \<open>updatedEpoch\<close> says, as the claim does, that the txs that fail verification are
  restricted into the current epoch, and the issuer batches into the epoch of the vertex.
  For a vertex of epoch 1 with one valid tx and one tx that fails verification, in an
  engine whose current epoch is 2, the batch and its restriction are made for epoch 1.
\<close>

theorem Update_batches_into_vertex_epoch:
  "updatedEpoch ex_issuer \<and> CtxEpoch ex_engine = 2 \<and>
   calls (snd (Update ex_issuer ex_engine)) =
     [Batch 1 [21] [[22]] False False True, VtxBlockedAbandon 5]"
  by (simp add: Update_def ex_issuer_def ex_engine_def ex_vertex_def Let_def errsAdd_def call_def)

theorem Update_batches_into_vertex_epoch_witness:
  "\<not> abandoned ex_issuer \<and> \<not> issued ex_issuer \<and> vtxDeps ex_issuer = {} \<and>
   unfulfilledDeps ex_issuer = {} \<and> \<not> VertexIssued ex_engine (vtx ex_issuer) \<and>
   errs ex_engine = None \<and>
   Batch (CtxEpoch ex_engine) [21] [[22]] False False True
     \<notin> set (calls (snd (Update ex_issuer ex_engine)))"
proof -
  have "\<not> abandoned ex_issuer" "\<not> issued ex_issuer" "vtxDeps ex_issuer = {}"
    "unfulfilledDeps ex_issuer = {}" "\<not> VertexIssued ex_engine (vtx ex_issuer)"
    "errs ex_engine = None"
    by (simp_all add: ex_issuer_def ex_engine_def)
  with Update_batches_into_vertex_epoch show ?thesis by simp
qed

section \<open>Properties of the vertex builder\<close>

lemma sort_key_inj_perm:
  assumes "mset xs = mset ys" "inj_on f (set xs)"
  shows "sort_key f xs = sort_key f ys"
proof (rule properties_for_sort_key [symmetric])
  show "mset (sort_key f xs) = mset ys" using assms(1) by simp
  show "sorted (map f (sort_key f xs))" by simp
  fix k
  assume "k \<in> set (sort_key f xs)"
  then have k: "k \<in> set xs" by simp
  have s: "set ys = set xs" using assms(1) by (metis set_mset_mset)
  have "filter (\<lambda>x. f k = f x) zs = filter ((=) k) zs" if "set zs = set xs" for zs
    using that k assms(2) by (intro filter_cong) (auto dest: inj_onD)
  then have "filter (\<lambda>x. f k = f x) (sort_key f xs) = filter ((=) k) (sort_key f xs)"
    and "filter (\<lambda>x. f k = f x) ys = filter ((=) k) ys"
    using s by simp_all
  moreover have "filter ((=) k) (sort_key f xs) = filter ((=) k) ys"
    using assms(1)
    by (metis mset_sort replicate_count_mset_eq_filter_eq)
  ultimately show "filter (\<lambda>x. f k = f x) (sort_key f xs) = filter (\<lambda>x. f k = f x) ys"
    by simp
qed

lemma sort_perm: "mset xs = mset ys \<Longrightarrow> sort xs = sort (ys :: id list)"
  by (metis properties_for_sort mset_sort sorted_sort)

text \<open>
  Claim C8. \<open>Build\<close> returns the same result, and so the same bytes and the same id, for
  the same chain id, height and epoch and for parent ids, transitions and restrictions
  that are the same up to their order, when the hash by which the transitions are
  sorted tells the given transitions apart.
\<close>

theorem Build_order_independent:
  assumes "mset parentIDs = mset parentIDs'" "mset trs = mset trs'"
    "mset restrictions = mset restrictions'" "inj_on hash (set trs)"
  shows "Build hash verify marshal chainID height epoch parentIDs trs restrictions =
         Build hash verify marshal chainID height epoch parentIDs' trs' restrictions'"
  unfolding Build_def SortIDs_def SortHashOf_def
  by (simp only: sort_perm [OF assms(1)] sort_perm [OF assms(3)]
      sort_key_inj_perm [OF assms(2,4)])

theorem Build_order_independent_witness:
  "mset [2, 1 :: id] = mset [1, 2] \<and> mset [[2, 3], [1 :: 8 word]] = mset [[1], [2, 3]] \<and>
   mset [4, 3 :: id] = mset [3, 4] \<and> inj_on ex_hash (set [[2, 3], [1]]) \<and>
   Build ex_hash (\<lambda>_. None) ex_marshal 7 1 1 [2, 1] [[2, 3], [1]] [4, 3] =
   Build ex_hash (\<lambda>_. None) ex_marshal 7 1 1 [1, 2] [[1], [2, 3]] [3, 4] \<and>
   map_option svBytes (fst (Build ex_hash (\<lambda>_. None) ex_marshal 7 1 1 [2, 1] [[2, 3], [1]] [4, 3]))
     = Some [1, 2, 3]"
proof -
  have h: "mset [2, 1 :: id] = mset [1, 2]" "mset [[2, 3], [1 :: 8 word]] = mset [[1], [2, 3]]"
    "mset [4, 3 :: id] = mset [3, 4]" "inj_on ex_hash (set [[2, 3], [1]])"
    by (simp_all add: ex_hash_def)
  have "map_option svBytes
          (fst (Build ex_hash (\<lambda>_. None) ex_marshal 7 1 1 [1, 2] [[1], [2, 3]] [3, 4]))
        = Some [1, 2, 3]"
    by (simp add: Build_def SortIDs_def SortHashOf_def ex_hash_def ex_marshal_def Let_def)
  with Build_order_independent [OF h, of "\<lambda>_. None" ex_marshal 7 1 1] h show ?thesis by simp
qed

section \<open>Properties of paginated fetching\<close>

lemma innerLoop_walk: "innerLoop vm a ids p = walk vm (map (Pair a) ids) p"
  by (induction ids arbitrary: p) (simp_all add: Let_def split: option.splits)

lemma walk_append:
  "walk vm (xs @ ys) p =
     (case walk vm xs p of
        Inl e \<Rightarrow> Inl e
      | Inr (b, p') \<Rightarrow> if b then Inr (True, p') else walk vm ys p')"
proof (induction xs arbitrary: p)
  case Nil
  show ?case by simp
next
  case (Cons x xs)
  obtain a u where x: "x = (a, u)" by (cases x)
  show ?case unfolding x by (simp add: Let_def Cons.IH split: option.splits)
qed

lemma stateUTXO_id: "stateUTXO vm u = Some x \<Longrightarrow> InputID vm x = u"
  by (auto simp: stateUTXO_def find_Some_iff)

lemma walk_no_error:
  "\<forall>e\<in>set es. stateUTXO vm (snd e) \<noteq> None \<Longrightarrow> \<exists>b p'. walk vm es p = Inr (b, p')"
proof (induction es arbitrary: p)
  case Nil
  show ?case by auto
next
  case (Cons x es)
  obtain a u where x: "x = (a, u)" by (cases x)
  from Cons.prems obtain y where y: "stateUTXO vm u = Some y" by (auto simp: x)
  from Cons.prems have r: "\<forall>e\<in>set es. stateUTXO vm (snd e) \<noteq> None" by simp
  show ?case unfolding x using Cons.IH [OF r] by (auto simp: Let_def y)
qed

text \<open>What a walk leaves: it has walked a prefix of the entries.\<close>

lemma walk_result:
  assumes "walk vm es p = Inr (b, p')" "pageInv vm L p"
  shows "\<exists>walked rest. es = walked @ rest \<and> (\<not> b \<longrightarrow> rest = [] \<and> pageInv vm L p') \<and>
           (b \<longrightarrow> walked \<noteq> []) \<and>
           distinct (map (InputID vm) (found p')) \<and>
           set (map (InputID vm) (found p')) = seen p \<union> snd ` set walked \<and>
           (\<forall>x\<in>set (found p'). stateUTXO vm (InputID vm x) = Some x) \<and>
           (lastAddr p', lastIndex p') =
             (if walked = [] then (lastAddr p, lastIndex p) else last walked)"
  using assms
proof (induction es arbitrary: p)
  case Nil
  then show ?case by (auto simp: pageInv_def)
next
  case (Cons x es)
  obtain a u where x: "x = (a, u)" by (cases x)
  let ?p1 = "p\<lparr>lastIndex := u, lastAddr := a\<rparr>"
  have inv1: "pageInv vm L ?p1" using Cons.prems(2) by (simp add: pageInv_def)
  show ?case
  proof (cases "u \<in> seen p")
    case True
    then have w: "walk vm es ?p1 = Inr (b, p')" using Cons.prems(1) by (simp add: x Let_def)
    from Cons.IH [OF w inv1] obtain walked rest where
      h: "es = walked @ rest" "\<not> b \<longrightarrow> rest = [] \<and> pageInv vm L p'" "b \<longrightarrow> walked \<noteq> []"
         "distinct (map (InputID vm) (found p'))"
         "set (map (InputID vm) (found p')) = seen ?p1 \<union> snd ` set walked"
         "\<forall>x\<in>set (found p'). stateUTXO vm (InputID vm x) = Some x"
         "(lastAddr p', lastIndex p') =
             (if walked = [] then (lastAddr ?p1, lastIndex ?p1) else last walked)"
      by blast
    show ?thesis
    proof (intro exI conjI)
      show "x # es = (x # walked) @ rest" using h(1) by simp
      show "\<not> b \<longrightarrow> rest = [] \<and> pageInv vm L p'" by (rule h(2))
      show "b \<longrightarrow> x # walked \<noteq> []" by simp
      show "distinct (map (InputID vm) (found p'))" by (rule h(4))
      show "set (map (InputID vm) (found p')) = seen p \<union> snd ` set (x # walked)"
        using h(5) True by (auto simp: x)
      show "\<forall>x\<in>set (found p'). stateUTXO vm (InputID vm x) = Some x" by (rule h(6))
      show "(lastAddr p', lastIndex p') =
             (if x # walked = [] then (lastAddr p, lastIndex p) else last (x # walked))"
        using h(7) by (simp add: x)
    qed
  next
    case False
    with Cons.prems(1) obtain y where y: "stateUTXO vm u = Some y"
      by (auto simp: x Let_def split: option.splits)
    have yid: "InputID vm y = u" using y by (rule stateUTXO_id)
    let ?p2 = "?p1\<lparr>found := found ?p1 @ [y], seen := insert u (seen ?p1),
                     remaining := remaining ?p1 - 1\<rparr>"
    have f2: "distinct (map (InputID vm) (found ?p2))"
      "set (map (InputID vm) (found ?p2)) = seen p \<union> {u}"
      "\<forall>x\<in>set (found ?p2). stateUTXO vm (InputID vm x) = Some x"
      using Cons.prems(2) False y yid by (auto simp: pageInv_def)
    show ?thesis
    proof (cases "remaining ?p2 \<le> 0")
      case True
      then have e: "b" "p' = ?p2"
        using Cons.prems(1) False y by (simp_all add: x Let_def)
      show ?thesis
      proof (intro exI conjI)
        show "x # es = [x] @ es" by simp
        show "\<not> b \<longrightarrow> es = [] \<and> pageInv vm L p'" using e by simp
        show "b \<longrightarrow> [x] \<noteq> []" by simp
        show "distinct (map (InputID vm) (found p'))" unfolding e by (rule f2)
        show "set (map (InputID vm) (found p')) = seen p \<union> snd ` set [x]"
          unfolding e using f2(2) by (simp add: x)
        show "\<forall>x\<in>set (found p'). stateUTXO vm (InputID vm x) = Some x" unfolding e by (rule f2)
        show "(lastAddr p', lastIndex p') =
               (if [x] = [] then (lastAddr p, lastIndex p) else last [x])"
          unfolding e by (simp add: x)
      qed
    next
      case r: False
      then have w: "walk vm es ?p2 = Inr (b, p')"
        using Cons.prems(1) False y by (simp add: x Let_def)
      have inv2: "pageInv vm L ?p2"
        using Cons.prems(2) False y yid r by (auto simp: pageInv_def)
      from Cons.IH [OF w inv2] obtain walked rest where
        h: "es = walked @ rest" "\<not> b \<longrightarrow> rest = [] \<and> pageInv vm L p'" "b \<longrightarrow> walked \<noteq> []"
           "distinct (map (InputID vm) (found p'))"
           "set (map (InputID vm) (found p')) = seen ?p2 \<union> snd ` set walked"
           "\<forall>x\<in>set (found p'). stateUTXO vm (InputID vm x) = Some x"
           "(lastAddr p', lastIndex p') =
               (if walked = [] then (lastAddr ?p2, lastIndex ?p2) else last walked)"
        by blast
      show ?thesis
      proof (intro exI conjI)
        show "x # es = (x # walked) @ rest" using h(1) by simp
        show "\<not> b \<longrightarrow> rest = [] \<and> pageInv vm L p'" by (rule h(2))
        show "b \<longrightarrow> x # walked \<noteq> []" by simp
        show "distinct (map (InputID vm) (found p'))" by (rule h(4))
        show "set (map (InputID vm) (found p')) = seen p \<union> snd ` set (x # walked)"
          using h(5) by (auto simp: x)
        show "\<forall>x\<in>set (found p'). stateUTXO vm (InputID vm x) = Some x" by (rule h(6))
        show "(lastAddr p', lastIndex p') =
               (if x # walked = [] then (lastAddr p, lastIndex p) else last (x # walked))"
          using h(7) by (simp add: x)
      qed
    qed
  qed
qed

lemma walk_all_short:
  assumes "walk vm es p = Inr (False, p')" "pageInv vm L p" "distinct (map snd es)"
  shows "int (length es) < L \<and> pageInv vm L p'"
proof -
  from walk_result [OF assms(1,2)] obtain walked rest where
    h: "es = walked @ rest" "rest = []" "pageInv vm L p'"
       "distinct (map (InputID vm) (found p'))"
       "set (map (InputID vm) (found p')) = seen p \<union> snd ` set walked"
    by auto
  have "length es = card (snd ` set es)"
    using assms(3) by (metis distinct_card length_map set_map)
  also have "\<dots> \<le> card (set (map (InputID vm) (found p')))"
  proof (rule card_mono)
    show "finite (set (map (InputID vm) (found p')))" by (rule finite_set)
    show "snd ` set es \<subseteq> set (map (InputID vm) (found p'))"
      unfolding h(5) using h(1,2) by auto
  qed
  also have "\<dots> = length (found p')"
    using h(4) by (metis distinct_card length_map)
  finally have "length es \<le> length (found p')" .
  moreover have "int (length (found p')) < L" using h(3) by (simp add: pageInv_def)
  ultimately show ?thesis using h(3) by simp
qed

lemma outerLoop_walk:
  assumes "pageInv vm L p" "\<forall>a\<in>set as. distinct (fundsIndex vm a)"
  shows "outerLoop vm sa su L as p =
           (case walk vm (entriesFrom vm sa su as) p of Inl e \<Rightarrow> Inl e | Inr (b, p') \<Rightarrow> Inr p')"
  using assms
proof (induction as arbitrary: p)
  case Nil
  show ?case by (simp add: entriesFrom_def)
next
  case (Cons a as)
  have d: "\<forall>a\<in>set as. distinct (fundsIndex vm a)" using Cons.prems(2) by simp
  show ?case
  proof (cases "a < sa")
    case True
    then have "entriesFrom vm sa su (a # as) = entriesFrom vm sa su as"
      by (simp add: entriesFrom_def)
    then show ?thesis using True Cons.IH [OF Cons.prems(1) d] by simp
  next
    case False
    let ?xs = "filter (\<lambda>u. (if a = sa then su else 0) < u) (fundsIndex vm a)"
    let ?n = "nat L"
    have e: "entriesFrom vm sa su (a # as) =
               map (Pair a) (take ?n ?xs) @ map (Pair a) (drop ?n ?xs) @ entriesFrom vm sa su as"
      using False by (simp add: entriesFrom_def flip: map_append)
    have o: "outerLoop vm sa su L (a # as) p =
               (case walk vm (map (Pair a) (take ?n ?xs)) p of
                  Inl err \<Rightarrow> Inl err
                | Inr (True, p') \<Rightarrow> Inr p'
                | Inr (False, p') \<Rightarrow> outerLoop vm sa su L as p')"
      using False by (simp add: Funds_def innerLoop_walk Let_def)
    show ?thesis
    proof (cases "walk vm (map (Pair a) (take ?n ?xs)) p")
      case (Inl err)
      then show ?thesis unfolding o e by (simp add: walk_append)
    next
      case (Inr r)
      obtain b p' where r: "r = (b, p')" by (cases r)
      show ?thesis
      proof (cases b)
        case True
        then show ?thesis unfolding o e using Inr r by (simp add: walk_append)
      next
        case b: False
        have w: "walk vm (map (Pair a) (take ?n ?xs)) p = Inr (False, p')"
          using Inr r b by simp
        have "distinct ?xs" using Cons.prems(2) by simp
        then have "distinct (map snd (map (Pair a) (take ?n ?xs)))"
          by (simp add: comp_def distinct_take)
        from walk_all_short [OF w Cons.prems(1) this]
        have s: "int (length (take ?n ?xs)) < L" and inv: "pageInv vm L p'" by simp_all
        have "length ?xs < ?n" using s by (simp add: min_def split: if_splits)
        then have t: "take ?n ?xs = ?xs" "drop ?n ?xs = []" by simp_all
        show ?thesis
          unfolding o e using w Cons.IH [OF inv d] by (simp add: walk_append t)
      qed
    qed
  qed
qed

lemma entriesFrom_filter:
  assumes "\<forall>a\<in>set as. 0 \<notin> set (fundsIndex vm a)"
  shows "entriesFrom vm sa su as = filter (cursorLess (sa, su)) (entries vm as)"
  using assms
proof (induction as)
  case Nil
  show ?case by (simp add: entriesFrom_def entries_def)
next
  case (Cons a as)
  have IH: "entriesFrom vm sa su as = filter (cursorLess (sa, su)) (entries vm as)"
    using Cons by simp
  have z: "\<forall>u\<in>set (fundsIndex vm a). 0 < u" using Cons.prems by (auto intro: gr0I)
  have "filter (cursorLess (sa, su)) (map (Pair a) (fundsIndex vm a)) =
        (if a < sa then []
         else map (Pair a) (filter (\<lambda>u. (if a = sa then su else 0) < u) (fundsIndex vm a)))"
    using z by (auto simp: filter_map comp_def cursorLess_def intro!: filter_cong arg_cong [where f = "map (Pair a)"])
  moreover have "entries vm (a # as) = map (Pair a) (fundsIndex vm a) @ entries vm as"
    by (simp add: entries_def)
  moreover have "entriesFrom vm sa su (a # as) =
        (if a < sa then []
         else map (Pair a) (filter (\<lambda>u. (if a = sa then su else 0) < u) (fundsIndex vm a)))
        @ entriesFrom vm sa su as"
    by (simp add: entriesFrom_def)
  ultimately show ?case using IH by simp
qed

lemma sorted_entries:
  assumes "sorted_wrt (<) as" "\<forall>a\<in>set as. sorted_wrt (<) (fundsIndex vm a)"
  shows "sorted_wrt cursorLess (entries vm as)"
  using assms
proof (induction as)
  case Nil
  show ?case by (simp add: entries_def)
next
  case (Cons a as)
  have 1: "sorted_wrt cursorLess (map (Pair a) (fundsIndex vm a))"
    using Cons.prems(2) by (simp add: sorted_wrt_map cursorLess_def)
  have 2: "sorted_wrt cursorLess (entries vm as)" using Cons by simp
  have 3: "\<forall>x\<in>set (map (Pair a) (fundsIndex vm a)). \<forall>y\<in>set (entries vm as). cursorLess x y"
    using Cons.prems(1) by (auto simp: entries_def cursorLess_def)
  have "entries vm (a # as) = map (Pair a) (fundsIndex vm a) @ entries vm as"
    by (simp add: entries_def)
  then show ?case using 1 2 3 by (simp add: sorted_wrt_append)
qed

lemma cursorLess_trans: "cursorLess x y \<Longrightarrow> cursorLess y z \<Longrightarrow> cursorLess x z"
  by (auto simp: cursorLess_def)

lemma cursorLess_irrefl: "\<not> cursorLess x x"
  by (simp add: cursorLess_def)

text \<open>In a sorted list, the entries beyond the last entry walked are the entries not walked.\<close>

lemma filter_beyond_last:
  assumes "sorted_wrt cursorLess es" "filter (cursorLess c) es = walked @ rest" "walked \<noteq> []"
  shows "filter (cursorLess (last walked)) es = rest"
proof -
  let ?l = "last walked"
  have s: "sorted_wrt cursorLess (walked @ rest)"
    using assms(1,2) by (metis sorted_wrt_filter)
  have l: "?l \<in> set walked" using assms(3) by simp
  then have cl: "cursorLess c ?l"
  proof -
    have "?l \<in> set (filter (cursorLess c) es)" using l by (simp add: assms(2))
    then show ?thesis by simp
  qed
  have w: "\<not> cursorLess ?l e" if "e \<in> set walked" for e
  proof -
    obtain ws where ws: "walked = ws @ [?l]" using assms(3) by (metis append_butlast_last_id)
    have "sorted_wrt cursorLess (ws @ [?l])" using s ws by (metis sorted_wrt_append)
    then have "\<forall>x\<in>set ws. cursorLess x ?l" by (simp add: sorted_wrt_append)
    moreover have "e \<in> set ws \<or> e = ?l" using that ws by (metis Un_iff insert_iff list.set(2) set_append empty_iff list.set(1))
    ultimately show ?thesis
      using cursorLess_trans cursorLess_irrefl by blast
  qed
  have r: "cursorLess ?l e" if "e \<in> set rest" for e
    using s l that by (simp add: sorted_wrt_append)
  have "filter (cursorLess ?l) es = filter (cursorLess ?l) (filter (cursorLess c) es)"
    using cl by (auto simp: filter_filter intro!: filter_cong dest: cursorLess_trans)
  also have "\<dots> = filter (cursorLess ?l) walked @ filter (cursorLess ?l) rest"
    by (simp add: assms(2))
  also have "filter (cursorLess ?l) walked = []" using w by (simp add: filter_empty_conv)
  also have "filter (cursorLess ?l) rest = rest" using r by (simp add: filter_id_conv)
  finally show ?thesis by simp
qed

lemma sorted_addrs: "sorted_wrt (<) (sort (remdups (addrs :: nat list)))"
  by (simp add: strict_sorted_iff)

lemma page_from_cursor:
  assumes "fundsOK vm addrs"
  shows "\<exists>us a' u' walked rest.
           GetUTXOs vm addrs a u limit True = Some (Inr (us, a', u')) \<and>
           filter (cursorLess (a, u)) (entries vm (sort (remdups addrs))) = walked @ rest \<and>
           distinct (map (InputID vm) us) \<and>
           set (map (InputID vm) us) = snd ` set walked \<and>
           (\<forall>x\<in>set us. stateUTXO vm (InputID vm x) = Some x) \<and>
           (walked = [] \<longrightarrow> rest = []) \<and>
           (walked \<noteq> [] \<longrightarrow> (a', u') = last walked)"
proof -
  let ?as = "sort (remdups addrs)"
  let ?L = "if limit \<le> 0 \<or> limit > maxUTXOsToFetch then maxUTXOsToFetch else limit"
  let ?p0 = "\<lparr>found = [], seen = {}, remaining = ?L, lastAddr = 0, lastIndex = 0\<rparr>"
  let ?A = "filter (cursorLess (a, u)) (entries vm ?as)"
  have L: "0 < ?L" by (simp add: maxUTXOsToFetch_def)
  have inv: "pageInv vm ?L ?p0" using L by (simp add: pageInv_def)
  have ok: "\<forall>x\<in>set ?as. sorted_wrt (<) (fundsIndex vm x) \<and> 0 \<notin> set (fundsIndex vm x) \<and>
              (\<forall>u\<in>set (fundsIndex vm x). stateUTXO vm u \<noteq> None)"
    using assms by (simp add: fundsOK_def)
  have d: "\<forall>x\<in>set ?as. distinct (fundsIndex vm x)"
    using ok by (auto simp: strict_sorted_iff)
  have ef: "entriesFrom vm a u ?as = ?A"
    using ok by (intro entriesFrom_filter) simp
  have "\<forall>e\<in>set ?A. stateUTXO vm (snd e) \<noteq> None"
    using ok by (auto simp: entries_def)
  from walk_no_error [OF this, of ?p0] obtain b p' where w: "walk vm ?A ?p0 = Inr (b, p')"
    by blast
  from walk_result [OF w inv] obtain walked rest where
    h: "?A = walked @ rest" "\<not> b \<longrightarrow> rest = []" "b \<longrightarrow> walked \<noteq> []"
       "distinct (map (InputID vm) (found p'))"
       "set (map (InputID vm) (found p')) = seen ?p0 \<union> snd ` set walked"
       "\<forall>x\<in>set (found p'). stateUTXO vm (InputID vm x) = Some x"
       "(lastAddr p', lastIndex p') =
             (if walked = [] then (lastAddr ?p0, lastIndex ?p0) else last walked)"
    by blast
  have "outerLoop vm a u ?L ?as ?p0 = Inr p'"
    using outerLoop_walk [OF inv d, of a u] w by (simp add: ef)
  then have g: "GetUTXOs vm addrs a u limit True = Some (Inr (found p', lastAddr p', lastIndex p'))"
    by (simp add: GetUTXOs_def getPaginatedUTXOs_def Let_def)
  show ?thesis
  proof (intro exI conjI)
    show "GetUTXOs vm addrs a u limit True = Some (Inr (found p', lastAddr p', lastIndex p'))"
      by (rule g)
    show "?A = walked @ rest" by (rule h(1))
    show "distinct (map (InputID vm) (found p'))" by (rule h(4))
    show "set (map (InputID vm) (found p')) = snd ` set walked" using h(5) by simp
    show "\<forall>x\<in>set (found p'). stateUTXO vm (InputID vm x) = Some x" by (rule h(6))
    show "walked = [] \<longrightarrow> rest = []" using h(2,3) by blast
    show "walked \<noteq> [] \<longrightarrow> (lastAddr p', lastIndex p') = last walked" using h(7) by simp
  qed
qed

lemma allPages_mono:
  "allPages n vm addrs limit a u = Some r \<Longrightarrow> allPages (n + k) vm addrs limit a u = Some r"
proof (induction n arbitrary: a u r)
  case 0
  then show ?case by simp
next
  case (Suc n)
  show ?case
  proof (cases "GetUTXOs vm addrs a u limit True")
    case None
    with Suc.prems show ?thesis by simp
  next
    case (Some g)
    show ?thesis
    proof (cases g)
      case (Inl e)
      with Some Suc.prems show ?thesis by simp
    next
      case (Inr t)
      obtain us a' u' where t: "t = (us, a', u')" by (cases t)
      show ?thesis
      proof (cases "us = []")
        case True
        with Some Inr t Suc.prems show ?thesis by simp
      next
        case False
        with Some Inr t Suc.prems obtain r' where
          r': "allPages n vm addrs limit a' u' = Some r'"
          by (auto split: option.splits)
        from Suc.IH [OF r'] r' Some Inr t False Suc.prems show ?thesis by simp
      qed
    qed
  qed
qed

lemma count_list_distinct_le:
  assumes "distinct xs" "set xs \<subseteq> set ys"
  shows "count_list xs v \<le> count_list ys v"
proof (cases "v \<in> set xs")
  case True
  then have "count_list xs v = 1" using assms(1) by (induction xs) auto
  moreover have "0 < count_list ys v" using True assms(2) by (metis count_list_0_iff gr0I subsetD)
  ultimately show ?thesis by simp
next
  case False
  then show ?thesis by (simp add: count_list_0_iff)
qed

lemma allPages_from:
  assumes "fundsOK vm addrs"
    "filter (cursorLess (a, u)) (entries vm (sort (remdups addrs))) = A"
  shows "\<exists>us. allPages (Suc (length A)) vm addrs limit a u = Some (Inr us) \<and>
           set (map (InputID vm) us) = snd ` set A \<and>
           (\<forall>v. count_list (map (InputID vm) us) v \<le> count_list (map snd A) v) \<and>
           (\<forall>x\<in>set us. stateUTXO vm (InputID vm x) = Some x)"
  using assms(2)
proof (induction "length A" arbitrary: A a u rule: less_induct)
  case less
  let ?E = "entries vm (sort (remdups addrs))"
  from page_from_cursor [OF assms(1), of a u limit] obtain us a' u' walked rest where
    p0: "GetUTXOs vm addrs a u limit True = Some (Inr (us, a', u'))"
       "filter (cursorLess (a, u)) ?E = walked @ rest"
       "distinct (map (InputID vm) us)"
       "set (map (InputID vm) us) = snd ` set walked"
       "\<forall>x\<in>set us. stateUTXO vm (InputID vm x) = Some x"
       "walked = [] \<longrightarrow> rest = []"
       "walked \<noteq> [] \<longrightarrow> (a', u') = last walked"
    by blast
  have p: "GetUTXOs vm addrs a u limit True = Some (Inr (us, a', u'))"
       "A = walked @ rest"
       "distinct (map (InputID vm) us)"
       "set (map (InputID vm) us) = snd ` set walked"
       "\<forall>x\<in>set us. stateUTXO vm (InputID vm x) = Some x"
       "walked = [] \<longrightarrow> rest = []"
       "walked \<noteq> [] \<longrightarrow> (a', u') = last walked"
    using p0 less.prems by simp_all
  show ?case
  proof (cases "us = []")
    case True
    then have "walked = []" using p(4) by simp
    then have "A = []" using p(2,6) by simp
    then show ?thesis using p(1) True by simp
  next
    case False
    then have wn: "walked \<noteq> []" using p(4) by auto
    then have c': "(a', u') = last walked" using p(7) by simp
    have srt: "sorted_wrt cursorLess ?E"
      using assms(1) by (intro sorted_entries sorted_addrs) (simp add: fundsOK_def)
    have f: "filter (cursorLess (a', u')) ?E = rest"
      unfolding c' using srt less.prems p(2) wn by (intro filter_beyond_last [where c = "(a, u)"]) simp_all
    have "length rest < length A" using p(2) wn by simp
    from less.hyps [OF this f] obtain later where
      l: "allPages (Suc (length rest)) vm addrs limit a' u' = Some (Inr later)"
         "set (map (InputID vm) later) = snd ` set rest"
         "\<forall>v. count_list (map (InputID vm) later) v \<le> count_list (map snd rest) v"
         "\<forall>x\<in>set later. stateUTXO vm (InputID vm x) = Some x"
      by blast
    have "Suc (length rest) + (length walked - 1) = length A"
      using p(2) wn by (cases walked) simp_all
    then have m: "allPages (length A) vm addrs limit a' u' = Some (Inr later)"
      using allPages_mono [OF l(1), of "length walked - 1"] by (simp only:)
    have r: "allPages (Suc (length A)) vm addrs limit a u = Some (Inr (us @ later))"
      using p(1) False m by simp
    have cw: "count_list (map (InputID vm) us) v \<le> count_list (map snd walked) v" for v
      using p(3,4) by (intro count_list_distinct_le) simp_all
    show ?thesis
    proof (intro exI conjI)
      show "allPages (Suc (length A)) vm addrs limit a u = Some (Inr (us @ later))" by (rule r)
      show "set (map (InputID vm) (us @ later)) = snd ` set A"
        using p(4) l(2) by (simp add: p(2) image_Un)
      show "\<forall>v. count_list (map (InputID vm) (us @ later)) v \<le> count_list (map snd A) v"
        using cw l(3) by (simp add: p(2) add_mono)
      show "\<forall>x\<in>set (us @ later). stateUTXO vm (InputID vm x) = Some x"
        using p(5) l(4) by auto
    qed
  qed
qed

lemma count_list_1: "distinct xs \<Longrightarrow> v \<in> set xs \<Longrightarrow> count_list xs v = 1"
  by (induction xs) auto

lemma count_entries:
  assumes "distinct as" "\<forall>a\<in>set as. distinct (fundsIndex vm a)"
  shows "count_list (map snd (entries vm as)) v = card {a \<in> set as. v \<in> set (fundsIndex vm a)}"
  using assms
proof (induction as)
  case Nil
  show ?case by (simp add: entries_def)
next
  case (Cons a as)
  have e: "map snd (entries vm (a # as)) = fundsIndex vm a @ map snd (entries vm as)"
    by (simp add: entries_def comp_def)
  have c: "count_list (fundsIndex vm a) v = (if v \<in> set (fundsIndex vm a) then 1 else 0)"
    using Cons.prems(2) by (simp add: count_list_1 count_list_0_iff)
  let ?S = "{x \<in> set as. v \<in> set (fundsIndex vm x)}"
  have n: "a \<notin> ?S" using Cons.prems(1) by simp
  have fin: "finite ?S" by simp
  have "card {x \<in> set (a # as). v \<in> set (fundsIndex vm x)} =
             (if v \<in> set (fundsIndex vm a) then 1 else 0) + card ?S"
  proof (cases "v \<in> set (fundsIndex vm a)")
    case True
    then have "{x \<in> set (a # as). v \<in> set (fundsIndex vm x)} = insert a ?S" by auto
    then show ?thesis using card_insert_disjoint [OF fin n] True by simp
  next
    case False
    then have "{x \<in> set (a # as). v \<in> set (fundsIndex vm x)} = ?S" by auto
    then show ?thesis using False by simp
  qed
  then show ?case using Cons e c by simp
qed

lemma set_entries: "snd ` set (entries vm as) = {v. \<exists>a\<in>set as. v \<in> set (fundsIndex vm a)}"
  by (auto simp: entries_def image_iff)

lemma filter_from_start:
  assumes "\<forall>a\<in>set as. 0 \<notin> set (fundsIndex vm a)"
  shows "filter (cursorLess (0, 0)) (entries vm as) = entries vm as"
proof -
  have "cursorLess (0, 0) e" if "e \<in> set (entries vm as)" for e
  proof -
    from that obtain a v where "e = (a, v)" "a \<in> set as" "v \<in> set (fundsIndex vm a)"
      by (auto simp: entries_def)
    then have "0 < v" using assms by (auto intro: gr0I)
    then show ?thesis using \<open>e = (a, v)\<close> by (auto simp: cursorLess_def)
  qed
  then show ?thesis by (simp add: filter_id_conv)
qed

lemma ex_funds: "fundsIndex ex_vm2 a = (if a = 3 \<or> a = 4 then [5] else [])"
  by (simp add: ex_vm2_def)

lemma ex_stateUTXO: "stateUTXO ex_vm2 5 = Some ex_utxo"
  by (simp add: stateUTXO_def InputID_def ex_vm2_def ex_vm_def ex_utxo_def)

lemma ex_InputID: "InputID ex_vm2 ex_utxo = 5"
  by (simp add: InputID_def ex_vm2_def ex_vm_def ex_utxo_def)

lemma ex_addrs: "sort (remdups [3, 4 :: nat]) = [3, 4]"
  by simp

lemma ex_page1: "GetUTXOs ex_vm2 [3, 4] 0 0 1 True = Some (Inr ([ex_utxo], 3, 5))"
  by (simp add: GetUTXOs_def getPaginatedUTXOs_def maxUTXOsToFetch_def Funds_def ex_funds
      ex_stateUTXO Let_def)

lemma ex_page2: "GetUTXOs ex_vm2 [3, 4] 3 5 1 True = Some (Inr ([ex_utxo], 4, 5))"
  by (simp add: GetUTXOs_def getPaginatedUTXOs_def maxUTXOsToFetch_def Funds_def ex_funds
      ex_stateUTXO Let_def)

lemma ex_page3: "GetUTXOs ex_vm2 [3, 4] 4 5 1 True = Some (Inr ([], 0, 0))"
  by (simp add: GetUTXOs_def getPaginatedUTXOs_def maxUTXOsToFetch_def Funds_def ex_funds
      ex_stateUTXO Let_def)


lemma ex_fundsOK: "fundsOK ex_vm2 [3, 4]"
  by (simp add: fundsOK_def ex_funds ex_stateUTXO)

text \<open>
  Claim C6, as stated, fails: the set of the ids seen lives for one call, so a UTXO that
  two queried addresses reference is returned once for each of them when the two
  entries fall on different pages. With addresses 3 and 4 that both reference the UTXO
  of id 5 and a limit of 1, the first page returns the UTXO for address 3, the second
  returns it again for address 4, and the third is empty.
\<close>

theorem allPages_twice_counterexample:
  "allPages (Suc (Suc (Suc 0))) ex_vm2 [3, 4] 1 0 0 = Some (Inr [ex_utxo, ex_utxo]) \<and>
   InputID ex_vm2 ex_utxo = 5 \<and> fundsIndex ex_vm2 3 = [5] \<and> fundsIndex ex_vm2 4 = [5]"
  by (simp add: ex_page1 ex_page2 ex_page3 ex_InputID ex_funds)

text \<open>
  Claim C6, amended. When the funds index of the queried addresses is well formed, the
  iteration from the empty cursor ends, whatever the limit, and returns UTXOs of the
  state such that every UTXO that a queried address references is returned at least
  once, no other UTXO is returned, and a UTXO is returned at most as many times as
  there are queried addresses that reference it: exactly once when one queried address
  references it.
\<close>

theorem allPages_cover:
  assumes "fundsOK vm addrs"
  shows "\<exists>n us. (\<forall>fuel\<ge>n. allPages fuel vm addrs limit 0 0 = Some (Inr us)) \<and>
           (\<forall>x\<in>set us. stateUTXO vm (InputID vm x) = Some x) \<and>
           (\<forall>v. (v \<in> InputID vm ` set us \<longleftrightarrow> (\<exists>a\<in>set addrs. v \<in> set (fundsIndex vm a))) \<and>
                count_list (map (InputID vm) us) v \<le> card {a \<in> set addrs. v \<in> set (fundsIndex vm a)} \<and>
                (card {a \<in> set addrs. v \<in> set (fundsIndex vm a)} = 1 \<longrightarrow>
                   count_list (map (InputID vm) us) v = 1))"
proof -
  let ?as = "sort (remdups addrs)"
  let ?E = "entries vm ?as"
  have z: "\<forall>a\<in>set ?as. 0 \<notin> set (fundsIndex vm a)"
    and d: "\<forall>a\<in>set ?as. distinct (fundsIndex vm a)"
    using assms by (auto simp: fundsOK_def strict_sorted_iff)
  from allPages_from [OF assms filter_from_start [OF z], of limit] obtain us where
    u: "allPages (Suc (length ?E)) vm addrs limit 0 0 = Some (Inr us)"
       "set (map (InputID vm) us) = snd ` set ?E"
       "\<forall>v. count_list (map (InputID vm) us) v \<le> count_list (map snd ?E) v"
       "\<forall>x\<in>set us. stateUTXO vm (InputID vm x) = Some x"
    by blast
  have c: "count_list (map snd ?E) v = card {a \<in> set addrs. v \<in> set (fundsIndex vm a)}" for v
    using count_entries [OF _ d, of v] by simp
  have m: "v \<in> InputID vm ` set us \<longleftrightarrow> (\<exists>a\<in>set addrs. v \<in> set (fundsIndex vm a))" for v
    using u(2) by (simp add: set_entries)
  have le: "count_list (map (InputID vm) us) v \<le> card {a \<in> set addrs. v \<in> set (fundsIndex vm a)}" for v
    using u(3) c by simp
  have one: "count_list (map (InputID vm) us) v = 1"
    if "card {a \<in> set addrs. v \<in> set (fundsIndex vm a)} = 1" for v
  proof -
    from that have "{a \<in> set addrs. v \<in> set (fundsIndex vm a)} \<noteq> {}"
      by (metis card.empty zero_neq_one)
    then have "v \<in> InputID vm ` set us" using m by auto
    then have "v \<in> set (map (InputID vm) us)" by simp
    then have "0 < count_list (map (InputID vm) us) v" by (metis count_list_0_iff gr0I)
    with le [of v] that show ?thesis by simp
  qed
  have f: "allPages fuel vm addrs limit 0 0 = Some (Inr us)" if "Suc (length ?E) \<le> fuel" for fuel
    using allPages_mono [OF u(1), of "fuel - Suc (length ?E)"] that by simp
  show ?thesis
  proof (intro exI conjI)
    show "\<forall>fuel\<ge>Suc (length ?E). allPages fuel vm addrs limit 0 0 = Some (Inr us)"
      using f by blast
    show "\<forall>x\<in>set us. stateUTXO vm (InputID vm x) = Some x" by (rule u(4))
    show "\<forall>v. (v \<in> InputID vm ` set us \<longleftrightarrow> (\<exists>a\<in>set addrs. v \<in> set (fundsIndex vm a))) \<and>
               count_list (map (InputID vm) us) v \<le> card {a \<in> set addrs. v \<in> set (fundsIndex vm a)} \<and>
               (card {a \<in> set addrs. v \<in> set (fundsIndex vm a)} = 1 \<longrightarrow>
                  count_list (map (InputID vm) us) v = 1)"
      using m le one by blast
  qed
qed

theorem allPages_cover_witness:
  "fundsOK ex_vm2 [3, 4] \<and>
   (\<exists>n us. (\<forall>fuel\<ge>n. allPages fuel ex_vm2 [3, 4] 1 0 0 = Some (Inr us)) \<and>
      (\<forall>v. (v \<in> InputID ex_vm2 ` set us \<longleftrightarrow> (\<exists>a\<in>set [3, 4]. v \<in> set (fundsIndex ex_vm2 a))) \<and>
           count_list (map (InputID ex_vm2) us) v
             \<le> card {a \<in> set [3, 4]. v \<in> set (fundsIndex ex_vm2 a)}))"
proof -
  from allPages_cover [OF ex_fundsOK, of 1] obtain n us where
    h: "\<forall>fuel\<ge>n. allPages fuel ex_vm2 [3, 4] 1 0 0 = Some (Inr us)"
       "\<forall>v. (v \<in> InputID ex_vm2 ` set us \<longleftrightarrow> (\<exists>a\<in>set [3, 4]. v \<in> set (fundsIndex ex_vm2 a))) \<and>
           count_list (map (InputID ex_vm2) us) v
             \<le> card {a \<in> set [3, 4]. v \<in> set (fundsIndex ex_vm2 a)} \<and>
           (card {a \<in> set [3, 4]. v \<in> set (fundsIndex ex_vm2 a)} = 1 \<longrightarrow>
              count_list (map (InputID ex_vm2) us) v = 1)"
    by blast
  have "\<forall>v. (v \<in> InputID ex_vm2 ` set us \<longleftrightarrow> (\<exists>a\<in>set [3, 4]. v \<in> set (fundsIndex ex_vm2 a))) \<and>
           count_list (map (InputID ex_vm2) us) v
             \<le> card {a \<in> set [3, 4]. v \<in> set (fundsIndex ex_vm2 a)}"
    using h(2) by blast
  with h(1) ex_fundsOK show ?thesis by blast
qed

end
